theory Spec2Isabelle
  imports Complex_Main "HOL-Library.AList"
begin

text \<open>
  A model of the browser viewers of the summaries: the CSV parser \<open>_parseCsv\<close>, the join of
  two tables on \<open>sam-url\<close> (\<open>_handleSummaryFile\<close>, \<open>_tryMerge\<close>) and the Markdown renderer
  \<open>_parseMarkdown\<close> of \<open>viewer/compare/app.js\<close>, the grouping \<open>_groupByOpportunity\<close> of
  \<open>viewer/docs/app.js\<close>, and \<open>_extractSummaryText\<close> of the document viewer. The definitions
  come first, the proofs after them.
\<close>

section \<open>Strings\<close>

text \<open>
  A JavaScript string is modelled as a \<^typ>\<open>string\<close>: the list of its code units, here
  the code units below 256. Within that range ECMAScript's white space (what \<open>\s\<close> matches
  and \<open>trim()\<close> removes) is TAB, LF, VT, FF, CR, SPACE and NO-BREAK SPACE, and its line
  terminators (what \<open>.\<close> refuses and what \<open>^\<close>/\<open>$\<close> look at under the \<open>m\<close> flag) are LF
  and CR.
\<close>

definition LF :: char where "LF = CHR 0x0A"
definition CR :: char where "CR = CHR 0x0D"
definition DQ :: char where "DQ = CHR 0x22"

definition is_space :: "char \<Rightarrow> bool" where
  "is_space c \<longleftrightarrow> c \<in> {CHR 0x09, CHR 0x0A, CHR 0x0B, CHR 0x0C, CHR 0x0D, CHR 0x20, CHR 0xA0}"

definition is_line_terminator :: "char \<Rightarrow> bool" where
  "is_line_terminator c \<longleftrightarrow> c = LF \<or> c = CR"

definition is_digit :: "char \<Rightarrow> bool" where
  "is_digit c \<longleftrightarrow> c \<in> set ''0123456789''"

definition trim :: "string \<Rightarrow> string" where
  \<comment> \<open>\<open>String.prototype.trim\<close>\<close>
  "trim s = rev (dropWhile is_space (rev (dropWhile is_space s)))"

definition starts_with :: "string \<Rightarrow> string \<Rightarrow> bool" where
  \<comment> \<open>\<open>s.startsWith(p)\<close>\<close>
  "starts_with s p \<longleftrightarrow> take (length p) s = p"

definition ends_with :: "string \<Rightarrow> string \<Rightarrow> bool" where
  \<comment> \<open>\<open>s.endsWith(p)\<close>\<close>
  "ends_with s p \<longleftrightarrow> length p \<le> length s \<and> drop (length s - length p) s = p"

definition next_is :: "char \<Rightarrow> string \<Rightarrow> bool" where
  \<comment> \<open>\<open>next === c\<close> where \<open>next = text[i + 1]\<close> is \<open>undefined\<close> past the end\<close>
  "next_is c cs = (case cs of [] \<Rightarrow> False | n # _ \<Rightarrow> n = c)"

definition or_empty :: "string option \<Rightarrow> string" where
  \<comment> \<open>\<open>v || ''\<close> for a value that is a string or \<open>undefined\<close>\<close>
  "or_empty v = (case v of None \<Rightarrow> [] | Some s \<Rightarrow> s)"

fun show_nat :: "nat \<Rightarrow> string" where
  \<comment> \<open>the decimal digits of a number, as a template literal prints it\<close>
  "show_nat n =
     (if n < 10 then [''0123456789'' ! n]
      else show_nat (n div 10) @ [''0123456789'' ! (n mod 10)])"

declare show_nat.simps [simp del]


section \<open>Records of a table\<close>

text \<open>
  A row is a plain JavaScript object \<open>{}\<close> whose values are strings: a map from property
  names to strings. Assigning \<open>row[k] = v\<close> stores an own property for every name but
  \<open>__proto__\<close>: that name reaches the setter inherited from \<open>Object.prototype\<close>, which
  ignores a value that is neither an object nor \<open>null\<close>, so nothing is stored.
\<close>

type_synonym js_row = "string \<rightharpoonup> string"

definition set_prop :: "js_row \<Rightarrow> string \<Rightarrow> string \<Rightarrow> js_row" where
  "set_prop row k v = (if k = ''__proto__'' then row else row(k \<mapsto> v))"

text \<open>
  \<open>headers.forEach((header, index) => { row[header] = currentRow[index] ?? ''; })\<close>:
  the values are consumed in step with the headers, and a missing one reads as \<open>''\<close>.
\<close>

fun fill_row :: "js_row \<Rightarrow> string list \<Rightarrow> string list \<Rightarrow> js_row" where
  "fill_row row [] vs = row"
| "fill_row row (header # hs) vs =
     fill_row (set_prop row header (case vs of [] \<Rightarrow> [] | v # _ \<Rightarrow> v)) hs (tl vs)"


section \<open>The CSV parser\<close>

record csv_state =
  rows :: "js_row list"
  headers :: "string list"
  currentField :: string
  currentRow :: "string list"
  inQuotes :: bool

definition csv_init :: csv_state where
  "csv_init = \<lparr>rows = [], headers = [], currentField = [], currentRow = [], inQuotes = False\<rparr>"

definition pushField :: "csv_state \<Rightarrow> csv_state" where
  "pushField st = st\<lparr>currentRow := currentRow st @ [trim (currentField st)], currentField := []\<rparr>"

definition pushRow :: "csv_state \<Rightarrow> csv_state" where
  "pushRow st =
     (if currentRow st = [] then st
      else if headers st = [] then
        st\<lparr>headers := headers st @ currentRow st, currentRow := []\<rparr>
      else if length (currentRow st) = length (headers st) then
        st\<lparr>rows := rows st @ [fill_row Map.empty (headers st) (currentRow st)], currentRow := []\<rparr>
      else st\<lparr>currentRow := []\<rparr>)"

text \<open>The scanning loop; the argument is the text from index \<open>i\<close> on.\<close>

fun scan :: "csv_state \<Rightarrow> string \<Rightarrow> csv_state" where
  "scan st [] = st"
| "scan st (c # cs) =
     (if c = DQ then
        (if inQuotes st \<and> next_is DQ cs
         then scan (st\<lparr>currentField := currentField st @ [DQ]\<rparr>) (tl cs)
         else scan (st\<lparr>inQuotes := \<not> inQuotes st\<rparr>) cs)
      else if c = CHR '','' \<and> \<not> inQuotes st then scan (pushField st) cs
      else if (c = LF \<or> c = CR) \<and> \<not> inQuotes st then
        scan (pushRow (pushField st)) (if c = CR \<and> next_is LF cs then tl cs else cs)
      else scan (st\<lparr>currentField := currentField st @ [c]\<rparr>) cs)"

definition flush :: "csv_state \<Rightarrow> csv_state" where
  \<comment> \<open>the statement after the loop\<close>
  "flush st =
     (if currentField st \<noteq> [] \<or> currentRow st \<noteq> [] then pushRow (pushField st) else st)"

definition parseCsv :: "string \<Rightarrow> js_row list" where
  "parseCsv text = rows (flush (scan csv_init text))"


section \<open>Joining and grouping by \<open>sam-url\<close>\<close>

text \<open>
  A JavaScript \<open>Map\<close> with string keys is an association list in insertion order:
  \<open>get\<close> is \<^const>\<open>map_of\<close>, and \<open>set\<close> is \<^const>\<open>AList.update\<close>, which overwrites the value of
  a key that is present and appends a new key at the end.
\<close>

type_synonym 'v js_map = "(string \<times> 'v) list"

definition key_of :: "js_row \<Rightarrow> string" where
  \<comment> \<open>\<open>(row['sam-url'] || '').trim()\<close>\<close>
  "key_of row = trim (or_empty (row ''sam-url''))"

definition index_row :: "js_row \<Rightarrow> js_row js_map \<Rightarrow> js_row js_map" where
  \<comment> \<open>the callback of the \<open>forEach\<close> in \<open>_handleSummaryFile\<close>\<close>
  "index_row row summaryMap =
     (let samUrl = key_of row in
      if samUrl \<noteq> [] then AList.update samUrl row summaryMap else summaryMap)"

definition index_summaries :: "js_row list \<Rightarrow> js_row js_map" where
  \<comment> \<open>the \<open>forEach\<close> of \<open>_handleSummaryFile\<close>, from \<open>new Map()\<close>\<close>
  "index_summaries summaries = fold index_row summaries []"

record merged_row =
  index :: nat
  samUrl :: string
  opportunityId :: string
  baseRow :: js_row
  summaryRow :: "js_row option"

definition merge_row :: "js_row js_map \<Rightarrow> nat \<times> js_row \<Rightarrow> merged_row option" where
  \<comment> \<open>the callback of \<open>baseRows.map\<close>; \<open>None\<close> is its \<open>null\<close>, which \<open>filter(Boolean)\<close> drops\<close>
  "merge_row m = (\<lambda>(i, row).
     let samUrl = key_of row in
     if samUrl = [] then None
     else
       let summaryRow = map_of m samUrl in
       Some \<lparr>index = i, samUrl = samUrl,
             opportunityId =
               (if or_empty (row ''opportunity_id'') \<noteq> [] then or_empty (row ''opportunity_id'')
                else if or_empty (Option.bind summaryRow (\<lambda>r. r ''opportunity_id'')) \<noteq> []
                then or_empty (Option.bind summaryRow (\<lambda>r. r ''opportunity_id''))
                else ''Row '' @ show_nat (i + 1)),
             baseRow = row, summaryRow = summaryRow\<rparr>)"

record compare_state =
  baseRows :: "js_row list"
  summaryRows :: "js_row list"
  summaryMap :: "js_row js_map"
  mergedRows :: "merged_row list"

definition compare_init :: compare_state where
  \<comment> \<open>the fields the constructor sets\<close>
  "compare_init = \<lparr>baseRows = [], summaryRows = [], summaryMap = [], mergedRows = []\<rparr>"

definition tryMerge :: "compare_state \<Rightarrow> compare_state" where
  "tryMerge st =
     (if baseRows st = [] \<or> summaryRows st = [] then st
      else st\<lparr>mergedRows :=
                List.map_filter (merge_row (summaryMap st)) (enumerate 0 (baseRows st))\<rparr>)"

definition handleBaseFile :: "string \<Rightarrow> compare_state \<Rightarrow> compare_state" where
  "handleBaseFile text st = tryMerge (st\<lparr>baseRows := parseCsv text\<rparr>)"

definition handleSummaryFile :: "string \<Rightarrow> compare_state \<Rightarrow> compare_state" where
  "handleSummaryFile text st =
     (let summaries = parseCsv text
      in tryMerge (st\<lparr>summaryRows := summaries, summaryMap := index_summaries summaries\<rparr>))"

definition group_row :: "js_row \<Rightarrow> (js_row list) js_map \<Rightarrow> (js_row list) js_map" where
  \<comment> \<open>the callback of the \<open>forEach\<close> in \<open>_groupByOpportunity\<close>\<close>
  "group_row row grouped =
     (let samUrl = key_of row in
      if samUrl = [] then grouped
      else
        let list = (case map_of grouped samUrl of None \<Rightarrow> [] | Some l \<Rightarrow> l)
        in AList.update samUrl (list @ [row]) grouped)"

definition groupByOpportunity :: "js_row list \<Rightarrow> (js_row list) js_map" where
  "groupByOpportunity table = fold group_row table []"


section \<open>Regular expressions\<close>

text \<open>
  The patterns of the renderer are sequences of: an anchor, one character of a class, a class
  under \<open>*\<close>, \<open>+\<close> or \<open>+?\<close>, and the parentheses of a capture group (never nested).
  \<^term>\<open>rmatch\<close> is the backtracking matcher of ECMAScript at one position: a greedy
  quantifier first takes a character and gives it back when the rest fails, a lazy one first
  tries the rest. It threads the code unit before the position (for \<open>^\<close>), the text from
  the position on, the texts at which the open groups started, and the captures so far; it
  returns the captures, the last code unit consumed and the text after the match.
\<close>

datatype atom =
    Bos  \<comment> \<open>\<open>^\<close> without the \<open>m\<close> flag\<close>
  | Eos  \<comment> \<open>\<open>$\<close> without the \<open>m\<close> flag\<close>
  | Bol  \<comment> \<open>\<open>^\<close> with the \<open>m\<close> flag\<close>
  | Eol  \<comment> \<open>\<open>$\<close> with the \<open>m\<close> flag\<close>
  | One "char \<Rightarrow> bool"
  | Star "char \<Rightarrow> bool"
  | Plus "char \<Rightarrow> bool"
  | PlusLazy "char \<Rightarrow> bool"
  | StarLazy "char \<Rightarrow> bool"  \<comment> \<open>what is left of \<open>+?\<close> after its first character\<close>
  | Open
  | Close

type_synonym rmatch_result = "string list \<times> char option \<times> string"

fun rmatch :: "atom list \<Rightarrow> char option \<Rightarrow> string \<Rightarrow> string list \<Rightarrow> string list
    \<Rightarrow> rmatch_result option" where
  "rmatch [] prev s opens caps = Some (caps, prev, s)"
| "rmatch (Bos # r) prev s opens caps =
     (if prev = None then rmatch r prev s opens caps else None)"
| "rmatch (Eos # r) prev s opens caps =
     (if s = [] then rmatch r prev s opens caps else None)"
| "rmatch (Bol # r) prev s opens caps =
     (if (case prev of None \<Rightarrow> True | Some p \<Rightarrow> is_line_terminator p)
      then rmatch r prev s opens caps else None)"
| "rmatch (Eol # r) prev s opens caps =
     (if (case s of [] \<Rightarrow> True | c # _ \<Rightarrow> is_line_terminator c)
      then rmatch r prev s opens caps else None)"
| "rmatch (Open # r) prev s opens caps = rmatch r prev s (s # opens) caps"
| "rmatch (Close # r) prev s opens caps =
     (case opens of
        [] \<Rightarrow> None
      | s0 # os \<Rightarrow> rmatch r prev s os (caps @ [take (length s0 - length s) s0]))"
| "rmatch (One p # r) prev [] opens caps = None"
| "rmatch (One p # r) prev (c # cs) opens caps =
     (if p c then rmatch r (Some c) cs opens caps else None)"
| "rmatch (Star p # r) prev [] opens caps = rmatch r prev [] opens caps"
| "rmatch (Star p # r) prev (c # cs) opens caps =
     (if p c then
        (case rmatch (Star p # r) (Some c) cs opens caps of
           Some m \<Rightarrow> Some m
         | None \<Rightarrow> rmatch r prev (c # cs) opens caps)
      else rmatch r prev (c # cs) opens caps)"
| "rmatch (Plus p # r) prev [] opens caps = None"
| "rmatch (Plus p # r) prev (c # cs) opens caps =
     (if p c then rmatch (Star p # r) (Some c) cs opens caps else None)"
| "rmatch (PlusLazy p # r) prev [] opens caps = None"
| "rmatch (PlusLazy p # r) prev (c # cs) opens caps =
     (if p c then rmatch (StarLazy p # r) (Some c) cs opens caps else None)"
| "rmatch (StarLazy p # r) prev [] opens caps = rmatch r prev [] opens caps"
| "rmatch (StarLazy p # r) prev (c # cs) opens caps =
     (case rmatch r prev (c # cs) opens caps of
        Some m \<Rightarrow> Some m
      | None \<Rightarrow> if p c then rmatch (StarLazy p # r) (Some c) cs opens caps else None)"

definition lit :: "char \<Rightarrow> atom" where
  "lit c = One (\<lambda>x. x = c)"

definition dot :: "char \<Rightarrow> bool" where
  \<comment> \<open>\<open>.\<close> without the \<open>s\<close> flag\<close>
  "dot c \<longleftrightarrow> \<not> is_line_terminator c"

text \<open>
  A replacement with the \<open>g\<close> flag cuts the text into the code units it copies and the
  matches it replaces: the match is tried at each index in turn, the search resumes where a
  match ended, and after an empty match it moves on by one code unit.
\<close>

datatype piece = Copy char | Match "string list"

function re_scan :: "atom list \<Rightarrow> char option \<Rightarrow> string \<Rightarrow> piece list" where
  "re_scan r prev s =
     (case rmatch r prev s [] [] of
        Some (caps, prev', rest) \<Rightarrow>
          if length rest < length s then Match caps # re_scan r prev' rest
          else Match caps # (case s of [] \<Rightarrow> [] | c # cs \<Rightarrow> Copy c # re_scan r (Some c) cs)
      | None \<Rightarrow> (case s of [] \<Rightarrow> [] | c # cs \<Rightarrow> Copy c # re_scan r (Some c) cs))"
  by pat_completeness auto
termination
  by (relation "measure (\<lambda>(r, prev, s). length s)") auto

declare re_scan.simps [simp del]

definition grp :: "string list \<Rightarrow> nat \<Rightarrow> string" where
  \<comment> \<open>\<open>$n\<close>, the text of the \<open>n\<close>-th group\<close>
  "grp caps n = (if 0 < n \<and> n \<le> length caps then caps ! (n - 1) else [])"

definition replace_all :: "atom list \<Rightarrow> (string list \<Rightarrow> string) \<Rightarrow> string \<Rightarrow> string" where
  \<comment> \<open>\<open>s.replace(/r/g, f)\<close> for a replacement that depends on the groups only\<close>
  "replace_all r f s =
     concat (map (\<lambda>p. case p of Copy c \<Rightarrow> [c] | Match caps \<Rightarrow> f caps) (re_scan r None s))"

definition replace_char :: "char \<Rightarrow> string \<Rightarrow> string \<Rightarrow> string" where
  \<comment> \<open>\<open>s.replace(/c/g, rep)\<close> for a pattern of one literal character\<close>
  "replace_char c rep s = concat (map (\<lambda>x. if x = c then rep else [x]) s)"

fun split_on :: "char \<Rightarrow> string \<Rightarrow> string list" where
  \<comment> \<open>\<open>s.split(c)\<close> for a separator of one character\<close>
  "split_on c [] = [[]]"
| "split_on c (x # xs) =
     (if x = c then [] # split_on c xs
      else (case split_on c xs of [] \<Rightarrow> [[x]] | l # ls \<Rightarrow> (x # l) # ls))"

fun join :: "string \<Rightarrow> string list \<Rightarrow> string" where
  \<comment> \<open>\<open>xs.join(sep)\<close>\<close>
  "join sep [] = []"
| "join sep [x] = x"
| "join sep (x # y # ys) = x @ sep @ join sep (y # ys)"


section \<open>The Markdown renderer\<close>

definition escape_html :: "string \<Rightarrow> string" where
  \<comment> \<open>step 1: \<open>&\<close> first, then \<open><\<close>, then \<open>>\<close>\<close>
  "escape_html text =
     replace_char (CHR ''>'') ''&gt;''
       (replace_char (CHR ''<'') ''&lt;'' (replace_char (CHR ''&'') ''&amp;'' text))"

definition header_re :: "nat \<Rightarrow> atom list" where
  \<comment> \<open>\<open>/^#{n} (.*)$/gm\<close>\<close>
  "header_re n = Bol # replicate n (lit (CHR ''#'')) @ [lit (CHR '' ''), Open, Star dot, Close, Eol]"

definition headers_html :: "string \<Rightarrow> string" where
  \<comment> \<open>step 2: the four header patterns, longest first\<close>
  "headers_html html =
     replace_all (header_re 1) (\<lambda>caps. ''<h1>'' @ grp caps 1 @ ''</h1>'')
       (replace_all (header_re 2) (\<lambda>caps. ''<h2>'' @ grp caps 1 @ ''</h2>'')
         (replace_all (header_re 3) (\<lambda>caps. ''<h3>'' @ grp caps 1 @ ''</h3>'')
           (replace_all (header_re 4) (\<lambda>caps. ''<h4>'' @ grp caps 1 @ ''</h4>'') html)))"

definition bold_re :: "atom list" where
  \<comment> \<open>\<open>/\*\*(.+?)\*\*/g\<close>\<close>
  "bold_re = [lit (CHR ''*''), lit (CHR ''*''), Open, PlusLazy dot, Close,
              lit (CHR ''*''), lit (CHR ''*'')]"

definition italic_re :: "atom list" where
  \<comment> \<open>\<open>/\*([^*\s]+[^*]*[^*\s]+)\*/g\<close>\<close>
  "italic_re = [lit (CHR ''*''), Open,
                Plus (\<lambda>c. c \<noteq> CHR ''*'' \<and> \<not> is_space c), Star (\<lambda>c. c \<noteq> CHR ''*''),
                Plus (\<lambda>c. c \<noteq> CHR ''*'' \<and> \<not> is_space c), Close, lit (CHR ''*'')]"

definition link_re :: "atom list" where
  \<comment> \<open>\<open>/\[([^\]]+)\]\(([^)]+)\)/g\<close>\<close>
  "link_re = [lit (CHR ''[''), Open, Plus (\<lambda>c. c \<noteq> CHR '']''), Close, lit (CHR '']''),
              lit (CHR ''(''), Open, Plus (\<lambda>c. c \<noteq> CHR '')''), Close, lit (CHR '')'')]"

definition bold_html :: "string \<Rightarrow> string" where
  "bold_html = replace_all bold_re (\<lambda>caps. ''<strong>'' @ grp caps 1 @ ''</strong>'')"

definition italic_html :: "string \<Rightarrow> string" where
  "italic_html = replace_all italic_re (\<lambda>caps. ''<em>'' @ grp caps 1 @ ''</em>'')"

definition link_html :: "string \<Rightarrow> string" where
  "link_html = replace_all link_re
     (\<lambda>caps. ''<a href='' @ [DQ] @ grp caps 2 @ [DQ] @ '' target='' @ [DQ] @ ''_blank'' @ [DQ]
              @ '' rel='' @ [DQ] @ ''noopener'' @ [DQ] @ ''>'' @ grp caps 1 @ ''</a>'')"

definition processInlineFormatting :: "string \<Rightarrow> string" where
  "processInlineFormatting text = link_html (italic_html (bold_html text))"

datatype list_type = UL | OL

record placeholder =
  ptype :: list_type
  content :: string
  indent :: string
  number :: "string option"

definition ul_re :: "atom list" where
  \<comment> \<open>\<open>/^(\s*)([\*\-])\s+(.+)$/gm\<close>\<close>
  "ul_re = [Bol, Open, Star is_space, Close, Open, One (\<lambda>c. c = CHR ''*'' \<or> c = CHR ''-''), Close,
            Plus is_space, Open, Plus dot, Close, Eol]"

definition ol_re :: "atom list" where
  \<comment> \<open>\<open>/^(\s*)(\d+)\.\s+(.+)$/gm\<close>\<close>
  "ol_re = [Bol, Open, Star is_space, Close, Open, Plus is_digit, Close, lit (CHR ''.''),
            Plus is_space, Open, Plus dot, Close, Eol]"

definition placeholder_token :: "nat \<Rightarrow> string" where
  \<comment> \<open>the template \<open>__LIST_ITEM_${placeholderIndex}__\<close>\<close>
  "placeholder_token i = ''__LIST_ITEM_'' @ show_nat i @ ''__''"

text \<open>
  Step 3: the two list passes. Their callbacks write \<open>listPlaceholders[placeholderIndex]\<close>
  and then increment \<open>placeholderIndex\<close>, which starts at 0 with the array empty: the index is
  the length of the array at every call, so each write appends. The state threaded through
  the matches is the array, and the text produced so far.
\<close>

definition extract_items :: "list_type \<Rightarrow> piece list \<Rightarrow> string \<times> placeholder list
    \<Rightarrow> string \<times> placeholder list" where
  "extract_items ty ps start =
     fold (\<lambda>p (out, listPlaceholders).
             case p of
               Copy c \<Rightarrow> (out @ [c], listPlaceholders)
             | Match caps \<Rightarrow>
                 (let placeholderIndex = length listPlaceholders;
                      formattedContent = processInlineFormatting (grp caps 3)
                  in (out @ grp caps 1 @ placeholder_token placeholderIndex,
                      listPlaceholders @
                        [\<lparr>ptype = ty, content = formattedContent, indent = grp caps 1,
                          number = (if ty = OL then Some (grp caps 2) else None)\<rparr>])))
          ps start"

definition extract_lists :: "string \<Rightarrow> string \<times> placeholder list" where
  "extract_lists html =
     (let (html1, items1) = extract_items UL (re_scan ul_re None html) ([], [])
      in extract_items OL (re_scan ol_re None html1) ([], items1))"

definition placeholder_re :: "atom list" where
  \<comment> \<open>\<open>/^(\s*)__LIST_ITEM_(\d+)__$/\<close>, without flags\<close>
  "placeholder_re = [Bos, Open, Star is_space, Close] @ map lit ''__LIST_ITEM_''
                    @ [Open, Plus is_digit, Close] @ map lit ''__'' @ [Eos]"

definition parseInt :: "string \<Rightarrow> nat" where
  \<comment> \<open>\<open>parseInt\<close> of a run of decimal digits. Beyond \<open>2^53\<close> JavaScript rounds the value, to a
      number that is still far beyond the length of any array, so the array read that follows
      finds nothing either way.\<close>
  "parseInt ds = fold (\<lambda>d n. 10 * n + (of_char d - 48)) ds 0"

definition placeholder_match :: "string \<Rightarrow> nat option" where
  \<comment> \<open>\<open>line.match(...)\<close>: the pattern starts with \<open>^\<close>, so it can match at index 0 only;
      the result is \<open>parseInt(placeholderMatch[2])\<close>\<close>
  "placeholder_match line =
     (case rmatch placeholder_re None line [] [] of
        None \<Rightarrow> None
      | Some (caps, _) \<Rightarrow> Some (parseInt (grp caps 2)))"

definition array_get :: "'a list \<Rightarrow> nat \<Rightarrow> 'a option" where
  \<comment> \<open>\<open>xs[i]\<close>, \<open>undefined\<close> past the end\<close>
  "array_get xs i = (if i < length xs then Some (xs ! i) else None)"

definition close_lists :: "bool \<Rightarrow> bool \<Rightarrow> string list" where
  "close_lists inUnorderedList inOrderedList =
     (if inUnorderedList then [''</ul>''] else []) @ (if inOrderedList then [''</ol>''] else [])"

text \<open>Step 6: the loop over the lines; the result is what it pushes on \<open>processedLines\<close>.\<close>

fun restore_lists :: "placeholder list \<Rightarrow> bool \<Rightarrow> bool \<Rightarrow> string list \<Rightarrow> string list" where
  "restore_lists listPlaceholders inUnorderedList inOrderedList [] =
     close_lists inUnorderedList inOrderedList"
| "restore_lists listPlaceholders inUnorderedList inOrderedList (line # lines) =
     (case placeholder_match line of
        Some k \<Rightarrow>
          (case array_get listPlaceholders k of
             None \<Rightarrow> line # restore_lists listPlaceholders inUnorderedList inOrderedList lines
           | Some ph \<Rightarrow>
               (case ptype ph of
                  UL \<Rightarrow>
                    (if \<not> inUnorderedList then
                       (if inOrderedList then [''</ol>''] else []) @ [''<ul>'']
                       @ (''<li>'' @ content ph @ ''</li>'')
                       # restore_lists listPlaceholders True False lines
                     else (''<li>'' @ content ph @ ''</li>'')
                       # restore_lists listPlaceholders inUnorderedList inOrderedList lines)
                | OL \<Rightarrow>
                    (if \<not> inOrderedList then
                       (if inUnorderedList then [''</ul>''] else []) @ [''<ol>'']
                       @ (''<li>'' @ content ph @ ''</li>'')
                       # restore_lists listPlaceholders False True lines
                     else (''<li>'' @ content ph @ ''</li>'')
                       # restore_lists listPlaceholders inUnorderedList inOrderedList lines)))
      | None \<Rightarrow>
          close_lists inUnorderedList inOrderedList
          @ line # restore_lists listPlaceholders False False lines)"

declare restore_lists.simps [simp del]

definition blank_re :: "atom list" where
  \<comment> \<open>\<open>/\n\n+/\<close>\<close>
  "blank_re = [lit LF, Plus (\<lambda>c. c = LF)]"

text \<open>
  \<open>html.split(/\n\n+/)\<close>: the pattern is tried at each index of a non-empty text; a match
  ends the current piece and the search resumes after it; the last piece runs to the end.
  A match of this pattern is never empty. The empty text gives one empty piece.
\<close>

function split_blank :: "string \<Rightarrow> char option \<Rightarrow> string \<Rightarrow> string list" where
  "split_blank piece prev s =
     (case s of
        [] \<Rightarrow> [piece]
      | c # cs \<Rightarrow>
          (case rmatch blank_re prev s [] [] of
             Some (caps, prev', rest) \<Rightarrow>
               if length rest < length s then piece # split_blank [] prev' rest
               else split_blank (piece @ [c]) (Some c) cs
           | None \<Rightarrow> split_blank (piece @ [c]) (Some c) cs))"
  by pat_completeness auto
termination
  by (relation "measure (\<lambda>(piece, prev, s). length s)") auto

declare split_blank.simps [simp del]

definition starts_block :: "string \<Rightarrow> bool" where
  \<comment> \<open>\<open>para.match(/^<(h[1-6]|ul|ol|li|p|div|blockquote|pre)/)\<close>\<close>
  "starts_block para \<longleftrightarrow>
     (starts_with para ''<h'' \<and> 2 < length para \<and> para ! 2 \<in> set ''123456'')
     \<or> (\<exists>t \<in> set [''ul'', ''ol'', ''li'', ''p'', ''div'', ''blockquote'', ''pre''].
           starts_with para (''<'' @ t))"

definition starts_list :: "string \<Rightarrow> bool" where
  \<comment> \<open>\<open>para.match(/^<(ul|ol)/)\<close>\<close>
  "starts_list para \<longleftrightarrow> starts_with para ''<ul'' \<or> starts_with para ''<ol''"

definition render_paragraph :: "string \<Rightarrow> string" where
  \<comment> \<open>the callback of \<open>paragraphs.map\<close>\<close>
  "render_paragraph para0 =
     (let para = trim para0 in
      if para = [] then []
      else if starts_block para then
        (if \<not> starts_list para then replace_char LF ''<br>'' para else para)
      else ''<p>'' @ replace_char LF ''<br>'' para @ ''</p>'')"

definition parseMarkdown :: "string \<Rightarrow> string" where
  "parseMarkdown text =
     (if text = [] then []
      else
        let html = escape_html text;
            html = headers_html html;
            (html, listPlaceholders) = extract_lists html;
            html = italic_html (bold_html html);
            html = link_html html;
            lines = split_on LF html;
            processedLines = restore_lists listPlaceholders False False lines;
            html = join [LF] processedLines;
            paragraphs = split_blank [] None html
        in join [LF] (map render_paragraph paragraphs))"


section \<open>The JSON envelope\<close>

text \<open>
  \<open>JSON.parse\<close> belongs to the language, not to the repository: it is a parameter, a
  function from the text to the value parsed, or to \<open>None\<close> where it throws a
  \<open>SyntaxError\<close>. An object is the association list of its own properties; a number is
  the real number it denotes.
\<close>

datatype jsval =
    JNull
  | JBool bool
  | JNum real
  | JStr string
  | JArr "jsval list"
  | JObj "(string \<times> jsval) list"

datatype js_error = SyntaxError | TypeError

fun truthy :: "jsval \<Rightarrow> bool" where
  "truthy JNull = False"
| "truthy (JBool b) = b"
| "truthy (JNum x) = (x \<noteq> 0)"
| "truthy (JStr s) = (s \<noteq> [])"
| "truthy (JArr xs) = True"
| "truthy (JObj ps) = True"

fun get_field :: "jsval \<Rightarrow> string \<Rightarrow> js_error + jsval option" where
  \<comment> \<open>\<open>data.name\<close> for a name that no prototype defines: a \<open>TypeError\<close> on \<open>null\<close>, the own
      property of an object, \<open>undefined\<close> (here \<open>None\<close>) otherwise\<close>
  "get_field JNull name = Inl TypeError"
| "get_field (JObj ps) name = Inr (map_of ps name)"
| "get_field v name = Inr None"

fun index_of :: "char \<Rightarrow> string \<Rightarrow> nat option" where
  \<comment> \<open>\<open>s.indexOf(c)\<close>, \<open>None\<close> for \<open>-1\<close>\<close>
  "index_of c [] = None"
| "index_of c (x # xs) = (if x = c then Some 0 else map_option Suc (index_of c xs))"

fun find_end :: "int \<Rightarrow> nat \<Rightarrow> string \<Rightarrow> nat option" where
  \<comment> \<open>the brace-counting loop, at index \<open>i\<close> with the text from there on; \<open>Some\<close> where it
      sets \<open>endIdx\<close> and breaks\<close>
  "find_end depth i [] = None"
| "find_end depth i (c # cs) =
     (if c = CHR ''{'' then find_end (depth + 1) (i + 1) cs
      else if c = CHR ''}'' then
        (if depth - 1 = 0 then Some (i + 1) else find_end (depth - 1) (i + 1) cs)
      else find_end depth (i + 1) cs)"

definition strip_fence :: "string \<Rightarrow> string" where
  \<comment> \<open>from \<open>let cleaned = trimmed\<close> to \<open>cleaned = cleaned.trim()\<close>\<close>
  "strip_fence trimmed =
     (let cleaned = (if starts_with trimmed ''```json'' then drop 7 trimmed
                     else if starts_with trimmed ''```'' then drop 3 trimmed
                     else trimmed);
          cleaned = (if ends_with cleaned ''```'' then take (length cleaned - 3) cleaned
                     else cleaned)
      in trim cleaned)"

definition json_candidate :: "string \<Rightarrow> string option" where
  \<comment> \<open>\<open>jsonStr\<close>, where the code reaches \<open>JSON.parse\<close>\<close>
  "json_candidate text =
     (let trimmed = trim text in
      if starts_with trimmed ''{'' \<or> starts_with trimmed ''```json'' \<or> starts_with trimmed ''```''
      then
        (let cleaned = strip_fence trimmed in
         case index_of (CHR ''{'') cleaned of
           None \<Rightarrow> None
         | Some startIdx \<Rightarrow>
             (let endIdx = (case find_end 0 startIdx (drop startIdx cleaned) of
                              None \<Rightarrow> startIdx | Some e \<Rightarrow> e)
              in Some (take (endIdx - startIdx) (drop startIdx cleaned))))
      else None)"

definition extract_body :: "(string \<Rightarrow> jsval option) \<Rightarrow> string \<Rightarrow> js_error + jsval option" where
  \<comment> \<open>the \<open>try\<close> block: \<open>Inl\<close> what it throws, \<open>Inr (Some v)\<close> what it returns, \<open>Inr None\<close>
      where it runs to its end\<close>
  "extract_body json_parse text =
     (case json_candidate text of
        None \<Rightarrow> Inr None
      | Some jsonStr \<Rightarrow>
          (case json_parse jsonStr of
             None \<Rightarrow> Inl SyntaxError
           | Some data \<Rightarrow>
               (case get_field data ''document_summary'' of
                  Inl e \<Rightarrow> Inl e
                | Inr None \<Rightarrow> Inr None
                | Inr (Some v) \<Rightarrow> if truthy v then Inr (Some v) else Inr None)))"

definition extractSummaryText :: "(string \<Rightarrow> jsval option) \<Rightarrow> string \<Rightarrow> js_error + jsval" where
  \<comment> \<open>\<open>Inl\<close> would be an exception that leaves the function\<close>
  "extractSummaryText json_parse text =
     (if text = [] then Inr (JStr [])
      else
        (case extract_body json_parse text of
           Inl e \<Rightarrow> Inr (JStr text)
         | Inr (Some v) \<Rightarrow> Inr v
         | Inr None \<Rightarrow> Inr (JStr text)))"


text \<open>
  What the specification calls the matching pair of braces, in its own words rather than
  as the loop computes it: the count of \<open>{\<close> less the count of \<open>}\<close> in a text, and a text
  that starts with \<open>{\<close> and ends where that count first comes back to zero. Braces inside
  string literals count like any other.
\<close>

definition bal :: "string \<Rightarrow> int" where
  "bal s = int (count_list s (CHR ''{'')) - int (count_list s (CHR ''}''))"

definition matched_braces :: "string \<Rightarrow> bool" where
  "matched_braces j \<longleftrightarrow>
     j \<noteq> [] \<and> hd j = CHR ''{'' \<and> bal j = 0 \<and> list_all (\<lambda>k. bal (take k j) \<noteq> 0) [1..<length j]"


section \<open>Rows of a text, and the text of a table\<close>

text \<open>
  Two notions the statements about the parser need. The first is the sequence of rows the
  scanner completes on a text: the value of \<open>currentRow\<close> at each call of \<open>pushRow\<close>, the one
  after the loop included. It is the loop of \<^const>\<open>scan\<close> with the row handed out instead
  of stored; its arguments are \<open>currentField\<close>, \<open>currentRow\<close> and \<open>inQuotes\<close>.
\<close>

fun rows_scan :: "string \<Rightarrow> string list \<Rightarrow> bool \<Rightarrow> string \<Rightarrow> string list list" where
  "rows_scan field row quoted [] =
     (if field \<noteq> [] \<or> row \<noteq> [] then [row @ [trim field]] else [])"
| "rows_scan field row quoted (c # cs) =
     (if c = DQ then
        (if quoted \<and> next_is DQ cs then rows_scan (field @ [DQ]) row quoted (tl cs)
         else rows_scan field row (\<not> quoted) cs)
      else if c = CHR '','' \<and> \<not> quoted then rows_scan [] (row @ [trim field]) quoted cs
      else if (c = LF \<or> c = CR) \<and> \<not> quoted then
        (row @ [trim field])
        # rows_scan [] [] quoted (if c = CR \<and> next_is LF cs then tl cs else cs)
      else rows_scan (field @ [c]) row quoted cs)"

definition csv_rows :: "string \<Rightarrow> string list list" where
  "csv_rows text = rows_scan [] [] False text"

text \<open>
  The rows of decoded fields: the same loop with each field handed out as \<open>currentField\<close>
  holds it when \<open>pushField\<close> is called, before \<open>trim()\<close>. This is the content of a field once
  the quoting is undone: the quotes around it removed, a doubled quote read as one.
\<close>

fun fields_scan :: "string \<Rightarrow> string list \<Rightarrow> bool \<Rightarrow> string \<Rightarrow> string list list" where
  "fields_scan field row quoted [] =
     (if field \<noteq> [] \<or> row \<noteq> [] then [row @ [field]] else [])"
| "fields_scan field row quoted (c # cs) =
     (if c = DQ then
        (if quoted \<and> next_is DQ cs then fields_scan (field @ [DQ]) row quoted (tl cs)
         else fields_scan field row (\<not> quoted) cs)
      else if c = CHR '','' \<and> \<not> quoted then fields_scan [] (row @ [field]) quoted cs
      else if (c = LF \<or> c = CR) \<and> \<not> quoted then
        (row @ [field])
        # fields_scan [] [] quoted (if c = CR \<and> next_is LF cs then tl cs else cs)
      else fields_scan (field @ [c]) row quoted cs)"

definition decoded_rows :: "string \<Rightarrow> string list list" where
  "decoded_rows text = fields_scan [] [] False text"

definition push_record :: "string list \<times> js_row list \<Rightarrow> string list \<Rightarrow> string list \<times> js_row list" where
  \<comment> \<open>what \<open>pushRow\<close> does to \<open>headers\<close> and \<open>rows\<close>, given \<open>currentRow\<close>\<close>
  "push_record = (\<lambda>(hs, recs) r.
     if r = [] then (hs, recs)
     else if hs = [] then (hs @ r, recs)
     else if length r = length hs then (hs, recs @ [fill_row Map.empty hs r])
     else (hs, recs))"

text \<open>
  The second follows the words of the specification: a field written in quotes, with each
  quote inside doubled; a row as its fields between commas; a table as its rows, each
  ended by a line feed.
\<close>

definition csv_field :: "string \<Rightarrow> string" where
  "csv_field s = DQ # concat (map (\<lambda>c. if c = DQ then [DQ, DQ] else [c]) s) @ [DQ]"

fun csv_line :: "string list \<Rightarrow> string" where
  "csv_line [] = []"
| "csv_line [f] = csv_field f"
| "csv_line (f # g # gs) = csv_field f @ '','' @ csv_line (g # gs)"

definition csv_text :: "string list list \<Rightarrow> string" where
  "csv_text table = concat (map (\<lambda>fs. csv_line fs @ [LF]) table)"

text \<open>The same table written without quotes: the fields as they are, between commas.\<close>

definition plain_text :: "string list list \<Rightarrow> string" where
  "plain_text table = concat (map (\<lambda>fs. join '','' fs @ [LF]) table)"


definition after :: "char option \<Rightarrow> string \<Rightarrow> char option" where
  \<comment> \<open>the code unit before the position, once the matcher has consumed \<open>s\<close>\<close>
  "after prev s = (if s = [] then prev else Some (last s))"


text \<open>
  For the examples of the envelope: a function that agrees with \<open>JSON.parse\<close> on the
  texts the examples hand to it, namely two objects, and a \<open>SyntaxError\<close> on the empty
  text and on a text cut inside a string literal.
\<close>

definition json_parse_sample :: "string \<Rightarrow> jsval option" where
  \<open>json_parse_sample jsonStr =
     (if jsonStr = ''{"document_summary":"hi"}'' then Some (JObj [(''document_summary'', JStr ''hi'')])
      else if jsonStr = ''{"document_summary":""}'' then Some (JObj [(''document_summary'', JStr [])])
      else None)\<close>


section \<open>The renderer with a bound on its steps\<close>

text \<open>
  To state that \<open>_parseMarkdown\<close> returns, its matching and scanning are written once more
  with a bound: \<open>n\<close> limits how deep the matcher may go at one position and how many
  positions a scan may visit, and \<open>None\<close> is the outcome of a run that has not come to its end
  within the bound. The equations are those of the definitions above, one for one, with the
  bound passed on, one less, at each recursive call. The loops over an array (\<open>forEach\<close>,
  \<open>map\<close>, \<open>join\<close>) end with the array and take no bound of their own; they pass on
  the bound to the matching they call. No operation of the function raises on a string, so
  there is no outcome other than a string or the bound reached.
\<close>

fun rmatch_fuel :: "nat \<Rightarrow> atom list \<Rightarrow> char option \<Rightarrow> string \<Rightarrow> string list \<Rightarrow> string list
    \<Rightarrow> rmatch_result option option" where
  "rmatch_fuel 0 r prev s opens caps = None"
| "rmatch_fuel (Suc n) [] prev s opens caps = Some (Some (caps, prev, s))"
| "rmatch_fuel (Suc n) (Bos # r) prev s opens caps =
     (if prev = None then rmatch_fuel n r prev s opens caps else Some None)"
| "rmatch_fuel (Suc n) (Eos # r) prev s opens caps =
     (if s = [] then rmatch_fuel n r prev s opens caps else Some None)"
| "rmatch_fuel (Suc n) (Bol # r) prev s opens caps =
     (if (case prev of None \<Rightarrow> True | Some p \<Rightarrow> is_line_terminator p)
      then rmatch_fuel n r prev s opens caps else Some None)"
| "rmatch_fuel (Suc n) (Eol # r) prev s opens caps =
     (if (case s of [] \<Rightarrow> True | c # _ \<Rightarrow> is_line_terminator c)
      then rmatch_fuel n r prev s opens caps else Some None)"
| "rmatch_fuel (Suc n) (Open # r) prev s opens caps = rmatch_fuel n r prev s (s # opens) caps"
| "rmatch_fuel (Suc n) (Close # r) prev s opens caps =
     (case opens of
        [] \<Rightarrow> Some None
      | s0 # os \<Rightarrow> rmatch_fuel n r prev s os (caps @ [take (length s0 - length s) s0]))"
| "rmatch_fuel (Suc n) (One p # r) prev [] opens caps = Some None"
| "rmatch_fuel (Suc n) (One p # r) prev (c # cs) opens caps =
     (if p c then rmatch_fuel n r (Some c) cs opens caps else Some None)"
| "rmatch_fuel (Suc n) (Star p # r) prev [] opens caps = rmatch_fuel n r prev [] opens caps"
| "rmatch_fuel (Suc n) (Star p # r) prev (c # cs) opens caps =
     (if p c then
        (case rmatch_fuel n (Star p # r) (Some c) cs opens caps of
           None \<Rightarrow> None
         | Some (Some m) \<Rightarrow> Some (Some m)
         | Some None \<Rightarrow> rmatch_fuel n r prev (c # cs) opens caps)
      else rmatch_fuel n r prev (c # cs) opens caps)"
| "rmatch_fuel (Suc n) (Plus p # r) prev [] opens caps = Some None"
| "rmatch_fuel (Suc n) (Plus p # r) prev (c # cs) opens caps =
     (if p c then rmatch_fuel n (Star p # r) (Some c) cs opens caps else Some None)"
| "rmatch_fuel (Suc n) (PlusLazy p # r) prev [] opens caps = Some None"
| "rmatch_fuel (Suc n) (PlusLazy p # r) prev (c # cs) opens caps =
     (if p c then rmatch_fuel n (StarLazy p # r) (Some c) cs opens caps else Some None)"
| "rmatch_fuel (Suc n) (StarLazy p # r) prev [] opens caps = rmatch_fuel n r prev [] opens caps"
| "rmatch_fuel (Suc n) (StarLazy p # r) prev (c # cs) opens caps =
     (case rmatch_fuel n r prev (c # cs) opens caps of
        None \<Rightarrow> None
      | Some (Some m) \<Rightarrow> Some (Some m)
      | Some None \<Rightarrow>
          if p c then rmatch_fuel n (StarLazy p # r) (Some c) cs opens caps else Some None)"

fun re_scan_fuel :: "nat \<Rightarrow> atom list \<Rightarrow> char option \<Rightarrow> string \<Rightarrow> piece list option" where
  "re_scan_fuel 0 r prev s = None"
| "re_scan_fuel (Suc n) r prev s =
     (case rmatch_fuel n r prev s [] [] of
        None \<Rightarrow> None
      | Some (Some (caps, prev', rest)) \<Rightarrow>
          if length rest < length s
          then map_option (\<lambda>ps. Match caps # ps) (re_scan_fuel n r prev' rest)
          else (case s of
                  [] \<Rightarrow> Some [Match caps]
                | c # cs \<Rightarrow> map_option (\<lambda>ps. Match caps # Copy c # ps)
                             (re_scan_fuel n r (Some c) cs))
      | Some None \<Rightarrow>
          (case s of
             [] \<Rightarrow> Some []
           | c # cs \<Rightarrow> map_option (\<lambda>ps. Copy c # ps) (re_scan_fuel n r (Some c) cs)))"

definition replace_all_fuel :: "nat \<Rightarrow> atom list \<Rightarrow> (string list \<Rightarrow> string) \<Rightarrow> string \<Rightarrow> string option" where
  "replace_all_fuel n r f s =
     map_option (\<lambda>ps. concat (map (\<lambda>p. case p of Copy c \<Rightarrow> [c] | Match caps \<Rightarrow> f caps) ps))
       (re_scan_fuel n r None s)"

definition headers_html_fuel :: "nat \<Rightarrow> string \<Rightarrow> string option" where
  "headers_html_fuel n html =
     (case replace_all_fuel n (header_re 4) (\<lambda>caps. ''<h4>'' @ grp caps 1 @ ''</h4>'') html of
        None \<Rightarrow> None
      | Some html \<Rightarrow>
     (case replace_all_fuel n (header_re 3) (\<lambda>caps. ''<h3>'' @ grp caps 1 @ ''</h3>'') html of
        None \<Rightarrow> None
      | Some html \<Rightarrow>
     (case replace_all_fuel n (header_re 2) (\<lambda>caps. ''<h2>'' @ grp caps 1 @ ''</h2>'') html of
        None \<Rightarrow> None
      | Some html \<Rightarrow>
          replace_all_fuel n (header_re 1) (\<lambda>caps. ''<h1>'' @ grp caps 1 @ ''</h1>'') html)))"

definition bold_html_fuel :: "nat \<Rightarrow> string \<Rightarrow> string option" where
  "bold_html_fuel n = replace_all_fuel n bold_re (\<lambda>caps. ''<strong>'' @ grp caps 1 @ ''</strong>'')"

definition italic_html_fuel :: "nat \<Rightarrow> string \<Rightarrow> string option" where
  "italic_html_fuel n = replace_all_fuel n italic_re (\<lambda>caps. ''<em>'' @ grp caps 1 @ ''</em>'')"

definition link_html_fuel :: "nat \<Rightarrow> string \<Rightarrow> string option" where
  "link_html_fuel n = replace_all_fuel n link_re
     (\<lambda>caps. ''<a href='' @ [DQ] @ grp caps 2 @ [DQ] @ '' target='' @ [DQ] @ ''_blank'' @ [DQ]
              @ '' rel='' @ [DQ] @ ''noopener'' @ [DQ] @ ''>'' @ grp caps 1 @ ''</a>'')"

definition processInlineFormatting_fuel :: "nat \<Rightarrow> string \<Rightarrow> string option" where
  "processInlineFormatting_fuel n text =
     (case bold_html_fuel n text of
        None \<Rightarrow> None
      | Some text \<Rightarrow>
          (case italic_html_fuel n text of
             None \<Rightarrow> None
           | Some text \<Rightarrow> link_html_fuel n text))"

definition extract_item_fuel :: "nat \<Rightarrow> list_type \<Rightarrow> piece \<Rightarrow> (string \<times> placeholder list) option
    \<Rightarrow> (string \<times> placeholder list) option" where
  "extract_item_fuel n ty p acc =
     (case acc of
        None \<Rightarrow> None
      | Some (out, listPlaceholders) \<Rightarrow>
          (case p of
             Copy c \<Rightarrow> Some (out @ [c], listPlaceholders)
           | Match caps \<Rightarrow>
               (case processInlineFormatting_fuel n (grp caps 3) of
                  None \<Rightarrow> None
                | Some formattedContent \<Rightarrow>
                    (let placeholderIndex = length listPlaceholders
                     in Some (out @ grp caps 1 @ placeholder_token placeholderIndex,
                              listPlaceholders @
                                [\<lparr>ptype = ty, content = formattedContent, indent = grp caps 1,
                                  number = (if ty = OL then Some (grp caps 2) else None)\<rparr>])))))"

definition extract_items_fuel :: "nat \<Rightarrow> list_type \<Rightarrow> piece list \<Rightarrow> string \<times> placeholder list
    \<Rightarrow> (string \<times> placeholder list) option" where
  "extract_items_fuel n ty ps start = fold (extract_item_fuel n ty) ps (Some start)"

definition extract_lists_fuel :: "nat \<Rightarrow> string \<Rightarrow> (string \<times> placeholder list) option" where
  "extract_lists_fuel n html =
     (case re_scan_fuel n ul_re None html of
        None \<Rightarrow> None
      | Some ps1 \<Rightarrow>
          (case extract_items_fuel n UL ps1 ([], []) of
             None \<Rightarrow> None
           | Some (html1, items1) \<Rightarrow>
               (case re_scan_fuel n ol_re None html1 of
                  None \<Rightarrow> None
                | Some ps2 \<Rightarrow> extract_items_fuel n OL ps2 ([], items1))))"

definition placeholder_match_fuel :: "nat \<Rightarrow> string \<Rightarrow> nat option option" where
  "placeholder_match_fuel n line =
     (case rmatch_fuel n placeholder_re None line [] [] of
        None \<Rightarrow> None
      | Some None \<Rightarrow> Some None
      | Some (Some (caps, _)) \<Rightarrow> Some (Some (parseInt (grp caps 2))))"

fun restore_lists_fuel :: "nat \<Rightarrow> placeholder list \<Rightarrow> bool \<Rightarrow> bool \<Rightarrow> string list
    \<Rightarrow> string list option" where
  "restore_lists_fuel n listPlaceholders inUnorderedList inOrderedList [] =
     Some (close_lists inUnorderedList inOrderedList)"
| "restore_lists_fuel n listPlaceholders inUnorderedList inOrderedList (line # lines) =
     (case placeholder_match_fuel n line of
        None \<Rightarrow> None
      | Some (Some k) \<Rightarrow>
          (case array_get listPlaceholders k of
             None \<Rightarrow>
               map_option (\<lambda>rest. line # rest)
                 (restore_lists_fuel n listPlaceholders inUnorderedList inOrderedList lines)
           | Some ph \<Rightarrow>
               (case ptype ph of
                  UL \<Rightarrow>
                    (if \<not> inUnorderedList then
                       map_option (\<lambda>rest. (if inOrderedList then [''</ol>''] else []) @ [''<ul>'']
                                     @ (''<li>'' @ content ph @ ''</li>'') # rest)
                         (restore_lists_fuel n listPlaceholders True False lines)
                     else
                       map_option (\<lambda>rest. (''<li>'' @ content ph @ ''</li>'') # rest)
                         (restore_lists_fuel n listPlaceholders inUnorderedList inOrderedList lines))
                | OL \<Rightarrow>
                    (if \<not> inOrderedList then
                       map_option (\<lambda>rest. (if inUnorderedList then [''</ul>''] else []) @ [''<ol>'']
                                     @ (''<li>'' @ content ph @ ''</li>'') # rest)
                         (restore_lists_fuel n listPlaceholders False True lines)
                     else
                       map_option (\<lambda>rest. (''<li>'' @ content ph @ ''</li>'') # rest)
                         (restore_lists_fuel n listPlaceholders inUnorderedList inOrderedList lines))))
      | Some None \<Rightarrow>
          map_option (\<lambda>rest. close_lists inUnorderedList inOrderedList @ line # rest)
            (restore_lists_fuel n listPlaceholders False False lines))"

fun split_blank_fuel :: "nat \<Rightarrow> string \<Rightarrow> char option \<Rightarrow> string \<Rightarrow> string list option" where
  "split_blank_fuel 0 piece prev s = None"
| "split_blank_fuel (Suc n) piece prev s =
     (case s of
        [] \<Rightarrow> Some [piece]
      | c # cs \<Rightarrow>
          (case rmatch_fuel n blank_re prev s [] [] of
             None \<Rightarrow> None
           | Some (Some (caps, prev', rest)) \<Rightarrow>
               if length rest < length s
               then map_option (\<lambda>pieces. piece # pieces) (split_blank_fuel n [] prev' rest)
               else split_blank_fuel n (piece @ [c]) (Some c) cs
           | Some None \<Rightarrow> split_blank_fuel n (piece @ [c]) (Some c) cs))"

definition parseMarkdown_fuel :: "nat \<Rightarrow> string \<Rightarrow> string option" where
  "parseMarkdown_fuel n text =
     (if text = [] then Some []
      else
        (case headers_html_fuel n (escape_html text) of
           None \<Rightarrow> None
         | Some html \<Rightarrow>
        (case extract_lists_fuel n html of
           None \<Rightarrow> None
         | Some (html, listPlaceholders) \<Rightarrow>
        (case bold_html_fuel n html of
           None \<Rightarrow> None
         | Some html \<Rightarrow>
        (case italic_html_fuel n html of
           None \<Rightarrow> None
         | Some html \<Rightarrow>
        (case link_html_fuel n html of
           None \<Rightarrow> None
         | Some html \<Rightarrow>
        (case restore_lists_fuel n listPlaceholders False False (split_on LF html) of
           None \<Rightarrow> None
         | Some processedLines \<Rightarrow>
        (case split_blank_fuel n [] None (join [LF] processedLines) of
           None \<Rightarrow> None
         | Some paragraphs \<Rightarrow> Some (join [LF] (map render_paragraph paragraphs))))))))))"

declare restore_lists_fuel.simps [simp del]


section \<open>Grouping and joining: proofs\<close>

lemma group_row_get:
  "map_of (group_row row g) k =
     (if key_of row \<noteq> [] \<and> k = key_of row
      then Some ((case map_of g k of None \<Rightarrow> [] | Some l \<Rightarrow> l) @ [row]) else map_of g k)"
  by (simp add: group_row_def Let_def update_conv')

lemma group_fold:
  "map_of (fold group_row table g) k =
   (if k \<noteq> [] \<and> (\<exists>row\<in>set table. key_of row = k)
    then Some ((case map_of g k of None \<Rightarrow> [] | Some l \<Rightarrow> l) @ filter (\<lambda>row. key_of row = k) table)
    else map_of g k)"
proof (induction table arbitrary: g)
  case Nil
  show ?case by simp
next
  case (Cons row table)
  show ?case
    by (auto simp add: Cons.IH group_row_get filter_empty_conv split: option.splits)
qed

lemma group_keys:
  "distinct (map fst g) \<Longrightarrow> distinct (map fst (fold group_row table g))"
  by (induction table arbitrary: g) (simp_all add: group_row_def Let_def distinct_update)

lemma group_entries:
  assumes "(k, rs) \<in> set (groupByOpportunity table)"
  shows "k \<noteq> [] \<and> rs = filter (\<lambda>row. key_of row = k) table"
proof -
  have d: "distinct (map fst (groupByOpportunity table))"
    unfolding groupByOpportunity_def by (rule group_keys) simp
  from assms d have "map_of (groupByOpportunity table) k = Some rs" by simp
  then show ?thesis
    unfolding groupByOpportunity_def by (simp add: group_fold split: if_splits)
qed

lemma key_of_examples:
  "key_of [''sam-url'' \<mapsto> ''1''] = ''1''"
  "key_of [''sam-url'' \<mapsto> ''2''] = ''2''"
  "key_of [''sam-url'' \<mapsto> '' 2'', ''v'' \<mapsto> ''x''] = ''2''"
  "key_of [''sam-url'' \<mapsto> ''2'', ''v'' \<mapsto> ''y''] = ''2''"
  "key_of [''sam-url'' \<mapsto> '' ''] = []"
  "key_of [''v'' \<mapsto> ''z''] = []"
  by (simp_all add: key_of_def trim_def is_space_def or_empty_def)

text \<open>
  C6, amended. The key column is not a parameter: \<open>_groupByOpportunity\<close> groups by the column
  \<open>sam-url\<close> and by no other. The Map it returns holds, under each key, exactly the rows of
  the table whose trimmed \<open>sam-url\<close> is that key, in the order of the table; a key is present
  exactly when it is non-empty and some row has it; no key occurs twice. So a row whose
  trimmed \<open>sam-url\<close> is empty or missing is in no group and gives no key, and every other row
  is in the group of its key, once.
\<close>

theorem groupByOpportunity_groups:
  "map_of (groupByOpportunity table) k =
     (if k \<noteq> [] \<and> (\<exists>row\<in>set table. key_of row = k)
      then Some (filter (\<lambda>row. key_of row = k) table) else None)
   \<and> distinct (map fst (groupByOpportunity table))
   \<and> (\<forall>(k', rs) \<in> set (groupByOpportunity table).
         k' \<noteq> [] \<and> rs = filter (\<lambda>row. key_of row = k') table)"
proof (intro conjI)
  show "map_of (groupByOpportunity table) k =
     (if k \<noteq> [] \<and> (\<exists>row\<in>set table. key_of row = k)
      then Some (filter (\<lambda>row. key_of row = k) table) else None)"
    unfolding groupByOpportunity_def by (simp add: group_fold)
  show "distinct (map fst (groupByOpportunity table))"
    unfolding groupByOpportunity_def by (rule group_keys) simp
  show "\<forall>(k', rs) \<in> set (groupByOpportunity table).
         k' \<noteq> [] \<and> rs = filter (\<lambda>row. key_of row = k') table"
    using group_entries by blast
qed

theorem groupByOpportunity_groups_witness:
  "map_of (groupByOpportunity
      [[''sam-url'' \<mapsto> ''2''], [''sam-url'' \<mapsto> '' ''], [''sam-url'' \<mapsto> '' 2'', ''v'' \<mapsto> ''x''],
       [''v'' \<mapsto> ''z'']]) ''2''
   = Some [[''sam-url'' \<mapsto> ''2''], [''sam-url'' \<mapsto> '' 2'', ''v'' \<mapsto> ''x'']]
   \<and> map_of (groupByOpportunity
      [[''sam-url'' \<mapsto> ''2''], [''sam-url'' \<mapsto> '' ''], [''sam-url'' \<mapsto> '' 2'', ''v'' \<mapsto> ''x''],
       [''v'' \<mapsto> ''z'']]) [] = None"
  using groupByOpportunity_groups
    [of "[[''sam-url'' \<mapsto> ''2''], [''sam-url'' \<mapsto> '' ''], [''sam-url'' \<mapsto> '' 2'', ''v'' \<mapsto> ''x''],
       [''v'' \<mapsto> ''z'']]" "''2''"]
    groupByOpportunity_groups
    [of "[[''sam-url'' \<mapsto> ''2''], [''sam-url'' \<mapsto> '' ''], [''sam-url'' \<mapsto> '' 2'', ''v'' \<mapsto> ''x''],
       [''v'' \<mapsto> ''z'']]" "[]"]
  by (simp add: key_of_examples)

text \<open>
  A table keyed by another column, here \<open>id\<close>, with two rows whose keys are not empty: no
  row is grouped, since no row has a \<open>sam-url\<close>.
\<close>

theorem groupByOpportunity_other_key_counterexample:
  "groupByOpportunity [[''id'' \<mapsto> ''1''], [''id'' \<mapsto> ''2'']] = []"
  by (simp add: groupByOpportunity_def group_row_def key_of_def or_empty_def trim_def)

lemma index_row_get:
  "map_of (index_row row m) k = (if key_of row \<noteq> [] \<and> k = key_of row then Some row else map_of m k)"
  by (simp add: index_row_def Let_def update_conv')

lemma index_fold:
  "map_of (fold index_row summaries m0) k =
   (if k \<noteq> [] \<and> (\<exists>row\<in>set summaries. key_of row = k)
    then Some (last (filter (\<lambda>row. key_of row = k) summaries))
    else map_of m0 k)"
proof (induction summaries arbitrary: m0)
  case Nil
  show ?case by simp
next
  case (Cons row summaries)
  show ?case
    by (auto simp add: Cons.IH index_row_get filter_empty_conv)
qed

lemma index_summaries_get:
  "map_of (index_summaries summaries) k =
   (if k \<noteq> [] \<and> (\<exists>row\<in>set summaries. key_of row = k)
    then Some (last (filter (\<lambda>row. key_of row = k) summaries))
    else None)"
  unfolding index_summaries_def by (simp add: index_fold)

lemma merged_base_rows:
  "map baseRow (List.map_filter (merge_row m) (enumerate n base)) =
     filter (\<lambda>row. key_of row \<noteq> []) base"
  by (induction base arbitrary: n) (simp_all add: List.map_filter_simps merge_row_def Let_def)

lemma merged_row_fields:
  "mr \<in> set (List.map_filter (merge_row m) (enumerate n base)) \<Longrightarrow>
     samUrl mr = key_of (baseRow mr) \<and> key_of (baseRow mr) \<noteq> []
     \<and> summaryRow mr = map_of m (key_of (baseRow mr))"
proof (induction base arbitrary: n)
  case Nil
  then show ?case by (simp add: List.map_filter_simps)
next
  case (Cons row base)
  show ?case
  proof (cases "key_of row = []")
    case True
    with Cons.prems have "mr \<in> set (List.map_filter (merge_row m) (enumerate (Suc n) base))"
      by (simp add: List.map_filter_simps merge_row_def)
    from Cons.IH[OF this] show ?thesis .
  next
    case False
    with Cons.prems consider
      "mr = the (merge_row m (n, row))"
      | "mr \<in> set (List.map_filter (merge_row m) (enumerate (Suc n) base))"
      by (auto simp add: List.map_filter_simps merge_row_def Let_def)
    then show ?thesis
    proof cases
      case 1
      with False show ?thesis by (simp add: merge_row_def Let_def)
    next
      case 2
      from Cons.IH[OF this] show ?thesis .
    qed
  qed
qed

lemma handleSummaryFile_index:
  "summaryMap (handleSummaryFile text st) = index_summaries (summaryRows (handleSummaryFile text st))"
  by (simp add: handleSummaryFile_def tryMerge_def Let_def)

lemma handleBaseFile_index:
  "summaryMap st = index_summaries (summaryRows st) \<Longrightarrow>
   summaryMap (handleBaseFile text st) = index_summaries (summaryRows (handleBaseFile text st))"
  by (simp add: handleBaseFile_def tryMerge_def)

lemma merge_example:
  "mergedRows (tryMerge
      \<lparr>baseRows = [[''sam-url'' \<mapsto> ''1''], [''sam-url'' \<mapsto> ''2'']],
       summaryRows = [[''sam-url'' \<mapsto> '' 2'', ''v'' \<mapsto> ''x''],
                      [''sam-url'' \<mapsto> ''2'', ''v'' \<mapsto> ''y'']],
       summaryMap = index_summaries [[''sam-url'' \<mapsto> '' 2'', ''v'' \<mapsto> ''x''],
                                     [''sam-url'' \<mapsto> ''2'', ''v'' \<mapsto> ''y'']],
       mergedRows = []\<rparr>)
   = [\<lparr>index = 0, samUrl = ''1'', opportunityId = ''Row 1'', baseRow = [''sam-url'' \<mapsto> ''1''],
       summaryRow = None\<rparr>,
      \<lparr>index = 1, samUrl = ''2'', opportunityId = ''Row 2'', baseRow = [''sam-url'' \<mapsto> ''2''],
       summaryRow = Some [''sam-url'' \<mapsto> ''2'', ''v'' \<mapsto> ''y'']\<rparr>]"
  by (simp add: tryMerge_def List.map_filter_simps enumerate_simps merge_row_def key_of_examples
      Let_def index_summaries_def index_row_def or_empty_def show_nat.simps)

text \<open>
  C5. The index that \<open>_handleSummaryFile\<close> builds maps a non-empty key to the last row of the
  summary table with that trimmed key (a later \<open>set\<close> overwrites an earlier one), and has no
  entry for any other key. In a state where that index is the one of the summary rows and
  both tables are non-empty, every merged row whose key occurs in the summary table is
  paired with the last summary row of that key.
\<close>

theorem index_summaries_last_wins:
  "map_of (index_summaries summaries) k =
     (if k \<noteq> [] \<and> (\<exists>row\<in>set summaries. key_of row = k)
      then Some (last (filter (\<lambda>row. key_of row = k) summaries)) else None)
   \<and> (baseRows st \<noteq> [] \<and> summaryRows st \<noteq> [] \<and> summaryMap st = index_summaries (summaryRows st)
        \<longrightarrow> (\<forall>mr \<in> set (mergedRows (tryMerge st)).
               (\<exists>row\<in>set (summaryRows st). key_of row = samUrl mr) \<longrightarrow>
               summaryRow mr =
                 Some (last (filter (\<lambda>row. key_of row = samUrl mr) (summaryRows st)))))"
proof (intro conjI impI ballI)
  show "map_of (index_summaries summaries) k =
     (if k \<noteq> [] \<and> (\<exists>row\<in>set summaries. key_of row = k)
      then Some (last (filter (\<lambda>row. key_of row = k) summaries)) else None)"
    by (rule index_summaries_get)
next
  fix mr
  assume st: "baseRows st \<noteq> [] \<and> summaryRows st \<noteq> []
                \<and> summaryMap st = index_summaries (summaryRows st)"
    and mr: "mr \<in> set (mergedRows (tryMerge st))"
    and ex: "\<exists>row\<in>set (summaryRows st). key_of row = samUrl mr"
  from st mr have "mr \<in> set (List.map_filter (merge_row (index_summaries (summaryRows st)))
                      (enumerate 0 (baseRows st)))"
    by (simp add: tryMerge_def)
  from merged_row_fields[OF this] ex
  show "summaryRow mr = Some (last (filter (\<lambda>row. key_of row = samUrl mr) (summaryRows st)))"
    by (simp add: index_summaries_get)
qed

theorem index_summaries_last_wins_witness:
  "map_of (index_summaries [[''sam-url'' \<mapsto> '' 2'', ''v'' \<mapsto> ''x''],
                            [''sam-url'' \<mapsto> ''2'', ''v'' \<mapsto> ''y'']]) ''2''
     = Some [''sam-url'' \<mapsto> ''2'', ''v'' \<mapsto> ''y'']
   \<and> map summaryRow (mergedRows (tryMerge
      \<lparr>baseRows = [[''sam-url'' \<mapsto> ''1''], [''sam-url'' \<mapsto> ''2'']],
       summaryRows = [[''sam-url'' \<mapsto> '' 2'', ''v'' \<mapsto> ''x''],
                      [''sam-url'' \<mapsto> ''2'', ''v'' \<mapsto> ''y'']],
       summaryMap = index_summaries [[''sam-url'' \<mapsto> '' 2'', ''v'' \<mapsto> ''x''],
                                     [''sam-url'' \<mapsto> ''2'', ''v'' \<mapsto> ''y'']],
       mergedRows = []\<rparr>))
     = [None, Some [''sam-url'' \<mapsto> ''2'', ''v'' \<mapsto> ''y'']]"
  using index_summaries_last_wins
    [of "[[''sam-url'' \<mapsto> '' 2'', ''v'' \<mapsto> ''x''], [''sam-url'' \<mapsto> ''2'', ''v'' \<mapsto> ''y'']]" "''2''"
     "\<lparr>baseRows = [[''sam-url'' \<mapsto> ''1''], [''sam-url'' \<mapsto> ''2'']],
       summaryRows = [[''sam-url'' \<mapsto> '' 2'', ''v'' \<mapsto> ''x''],
                      [''sam-url'' \<mapsto> ''2'', ''v'' \<mapsto> ''y'']],
       summaryMap = index_summaries [[''sam-url'' \<mapsto> '' 2'', ''v'' \<mapsto> ''x''],
                                     [''sam-url'' \<mapsto> ''2'', ''v'' \<mapsto> ''y'']],
       mergedRows = []\<rparr>"]
    merge_example
  by (simp add: key_of_examples)

lemma tryMerge_join:
  assumes "baseRows st \<noteq> []" and "summaryRows st \<noteq> []"
    and "summaryMap st = index_summaries (summaryRows st)"
  shows "map baseRow (mergedRows (tryMerge st)) = filter (\<lambda>row. key_of row \<noteq> []) (baseRows st)
    \<and> (\<forall>mr \<in> set (mergedRows (tryMerge st)).
          samUrl mr = key_of (baseRow mr) \<and>
          (case summaryRow mr of
             None \<Rightarrow> \<forall>row\<in>set (summaryRows st). key_of row \<noteq> samUrl mr
           | Some row \<Rightarrow> row \<in> set (summaryRows st) \<and> key_of row = samUrl mr))"
proof (intro conjI ballI)
  have m: "mergedRows (tryMerge st) =
      List.map_filter (merge_row (index_summaries (summaryRows st))) (enumerate 0 (baseRows st))"
    using assms by (simp add: tryMerge_def)
  show "map baseRow (mergedRows (tryMerge st)) = filter (\<lambda>row. key_of row \<noteq> []) (baseRows st)"
    by (simp add: m merged_base_rows)
  fix mr assume "mr \<in> set (mergedRows (tryMerge st))"
  then have in_m: "mr \<in> set (List.map_filter (merge_row (index_summaries (summaryRows st)))
                      (enumerate 0 (baseRows st)))"
    by (simp add: m)
  note facts = merged_row_fields[OF in_m]
  from facts show "samUrl mr = key_of (baseRow mr)" by simp
  let ?hits = "filter (\<lambda>row. key_of row = samUrl mr) (summaryRows st)"
  show "case summaryRow mr of
          None \<Rightarrow> \<forall>row\<in>set (summaryRows st). key_of row \<noteq> samUrl mr
        | Some row \<Rightarrow> row \<in> set (summaryRows st) \<and> key_of row = samUrl mr"
  proof (cases "\<exists>row\<in>set (summaryRows st). key_of row = samUrl mr")
    case True
    then have ne: "?hits \<noteq> []" by (simp add: filter_empty_conv)
    from True facts have s: "summaryRow mr = Some (last ?hits)"
      by (simp add: index_summaries_get)
    from ne have "last ?hits \<in> set ?hits" by (rule last_in_set)
    with s show ?thesis by simp
  next
    case False
    with facts have "summaryRow mr = None" by (simp add: index_summaries_get)
    with False show ?thesis by simp
  qed
qed

text \<open>
  C4, amended. The key column is \<open>sam-url\<close>, not a parameter. When both tables hold a row,
  and the index is the one of the summary rows, the merged rows are one per base row whose
  trimmed \<open>sam-url\<close> is non-empty, in the order of the base table; each carries that key and
  either a summary row with the same trimmed key, or \<open>null\<close> (here \<open>None\<close>) when the summary
  table has no row with that key. A summary row that matches is never \<open>null\<close>, whatever
  its cells. When either table is empty \<open>_tryMerge\<close> returns at once and changes nothing: the
  merged rows of an earlier merge, if any, stay as they are.
\<close>

theorem tryMerge_left_join:
  "(baseRows st \<noteq> [] \<and> summaryRows st \<noteq> [] \<and> summaryMap st = index_summaries (summaryRows st) \<longrightarrow>
      map baseRow (mergedRows (tryMerge st)) = filter (\<lambda>row. key_of row \<noteq> []) (baseRows st)
      \<and> (\<forall>mr \<in> set (mergedRows (tryMerge st)).
            samUrl mr = key_of (baseRow mr) \<and>
            (case summaryRow mr of
               None \<Rightarrow> \<forall>row\<in>set (summaryRows st). key_of row \<noteq> samUrl mr
             | Some row \<Rightarrow> row \<in> set (summaryRows st) \<and> key_of row = samUrl mr)))
   \<and> (baseRows st = [] \<or> summaryRows st = [] \<longrightarrow> tryMerge st = st)"
proof (rule conjI)
  show "baseRows st \<noteq> [] \<and> summaryRows st \<noteq> [] \<and> summaryMap st = index_summaries (summaryRows st) \<longrightarrow>
      map baseRow (mergedRows (tryMerge st)) = filter (\<lambda>row. key_of row \<noteq> []) (baseRows st)
      \<and> (\<forall>mr \<in> set (mergedRows (tryMerge st)).
            samUrl mr = key_of (baseRow mr) \<and>
            (case summaryRow mr of
               None \<Rightarrow> \<forall>row\<in>set (summaryRows st). key_of row \<noteq> samUrl mr
             | Some row \<Rightarrow> row \<in> set (summaryRows st) \<and> key_of row = samUrl mr))"
    using tryMerge_join[of st] by blast
  show "baseRows st = [] \<or> summaryRows st = [] \<longrightarrow> tryMerge st = st"
    by (auto simp: tryMerge_def)
qed

theorem tryMerge_left_join_witness:
  "map baseRow (mergedRows (tryMerge
      \<lparr>baseRows = [[''sam-url'' \<mapsto> ''1''], [''sam-url'' \<mapsto> '' ''], [''sam-url'' \<mapsto> ''2'']],
       summaryRows = [[''sam-url'' \<mapsto> '' 2'', ''v'' \<mapsto> ''x'']],
       summaryMap = index_summaries [[''sam-url'' \<mapsto> '' 2'', ''v'' \<mapsto> ''x'']],
       mergedRows = []\<rparr>))
     = [[''sam-url'' \<mapsto> ''1''], [''sam-url'' \<mapsto> ''2'']]
   \<and> tryMerge
      \<lparr>baseRows = [[''sam-url'' \<mapsto> ''1'']], summaryRows = [], summaryMap = [],
       mergedRows = [\<lparr>index = 0, samUrl = ''9'', opportunityId = ''Row 1'',
                      baseRow = [''sam-url'' \<mapsto> ''9''], summaryRow = None\<rparr>]\<rparr>
     = \<lparr>baseRows = [[''sam-url'' \<mapsto> ''1'']], summaryRows = [], summaryMap = [],
       mergedRows = [\<lparr>index = 0, samUrl = ''9'', opportunityId = ''Row 1'',
                      baseRow = [''sam-url'' \<mapsto> ''9''], summaryRow = None\<rparr>]\<rparr>"
  using tryMerge_left_join
    [of "\<lparr>baseRows = [[''sam-url'' \<mapsto> ''1''], [''sam-url'' \<mapsto> '' ''], [''sam-url'' \<mapsto> ''2'']],
       summaryRows = [[''sam-url'' \<mapsto> '' 2'', ''v'' \<mapsto> ''x'']],
       summaryMap = index_summaries [[''sam-url'' \<mapsto> '' 2'', ''v'' \<mapsto> ''x'']],
       mergedRows = []\<rparr>"]
    tryMerge_left_join
    [of "\<lparr>baseRows = [[''sam-url'' \<mapsto> ''1'']], summaryRows = [], summaryMap = [],
       mergedRows = [\<lparr>index = 0, samUrl = ''9'', opportunityId = ''Row 1'',
                      baseRow = [''sam-url'' \<mapsto> ''9''], summaryRow = None\<rparr>]\<rparr>"]
  by (simp add: key_of_examples)

text \<open>
  With an empty summary table the merge is skipped: a base row with the key \<open>1\<close> gives no
  merged row, where a left outer join would give one, unmatched. And two tables keyed by
  another column, here \<open>id\<close>, give no merged row at all, although their keys agree.
\<close>

theorem tryMerge_empty_summaries_counterexample:
  "mergedRows (tryMerge
      \<lparr>baseRows = [[''sam-url'' \<mapsto> ''1'']], summaryRows = [],
       summaryMap = index_summaries [], mergedRows = []\<rparr>) = []
   \<and> key_of [''sam-url'' \<mapsto> ''1''] = ''1''
   \<and> mergedRows (tryMerge
      \<lparr>baseRows = [[''id'' \<mapsto> ''1'']], summaryRows = [[''id'' \<mapsto> ''1'', ''v'' \<mapsto> ''x'']],
       summaryMap = index_summaries [[''id'' \<mapsto> ''1'', ''v'' \<mapsto> ''x'']], mergedRows = []\<rparr>) = []"
proof -
  have "key_of [''id'' \<mapsto> ''1''] = []" by (simp add: key_of_def or_empty_def trim_def)
  then show ?thesis
    by (simp add: tryMerge_def key_of_examples List.map_filter_simps enumerate_simps merge_row_def)
qed


section \<open>The CSV parser: proofs\<close>

lemma pushRow_pushField:
  "headers (pushRow (pushField st)) = fst (push_record (headers st, rows st) (currentRow st @ [trim (currentField st)]))"
  "rows (pushRow (pushField st)) = snd (push_record (headers st, rows st) (currentRow st @ [trim (currentField st)]))"
  "currentRow (pushRow (pushField st)) = []"
  "currentField (pushRow (pushField st)) = []"
  "inQuotes (pushRow (pushField st)) = inQuotes st"
  by (simp_all add: pushRow_def pushField_def push_record_def)

lemma pushField_fields:
  "headers (pushField st) = headers st" "rows (pushField st) = rows st"
  "currentRow (pushField st) = currentRow st @ [trim (currentField st)]"
  "currentField (pushField st) = []" "inQuotes (pushField st) = inQuotes st"
  by (simp_all add: pushField_def)

lemma special_chars [simp]:
  "DQ \<noteq> CHR '',''" "CHR '','' \<noteq> DQ" "LF \<noteq> DQ" "DQ \<noteq> LF" "CR \<noteq> DQ" "DQ \<noteq> CR"
  "LF \<noteq> CHR '',''" "CHR '','' \<noteq> LF" "CR \<noteq> CHR '',''" "CHR '','' \<noteq> CR" "LF \<noteq> CR" "CR \<noteq> LF"
  by (simp_all add: DQ_def LF_def CR_def)

lemma scan_rows_scan:
  "(headers (flush (scan st input)), rows (flush (scan st input))) =
     fold (\<lambda>r acc. push_record acc r)
       (rows_scan (currentField st) (currentRow st) (inQuotes st) input) (headers st, rows st)"
proof (induction st input rule: scan.induct)
  case (1 st)
  show ?case by (simp add: flush_def pushRow_pushField)
next
  case (2 st c cs)
  then show ?case
    by (auto simp: pushField_fields pushRow_pushField)
qed

lemma fold_push_record:
  "h \<noteq> [] \<Longrightarrow> fold (\<lambda>r acc. push_record acc r) rs (h, recs) =
     (h, recs @ map (fill_row Map.empty h) (filter (\<lambda>r. length r = length h) rs))"
  by (induction rs arbitrary: recs) (auto simp: push_record_def)

lemma rows_scan_nonempty: "r \<in> set (rows_scan field row quoted input) \<Longrightarrow> r \<noteq> []"
  by (induction field row quoted input rule: rows_scan.induct) (auto split: if_splits)

lemma parseCsv_csv_rows:
  "parseCsv input =
     (case csv_rows input of
        [] \<Rightarrow> []
      | h # rs \<Rightarrow> map (fill_row Map.empty h) (filter (\<lambda>r. length r = length h) rs))"
proof -
  have e: "(headers (flush (scan csv_init input)), parseCsv input) =
      fold (\<lambda>r acc. push_record acc r) (csv_rows input) ([], [])"
    using scan_rows_scan[of csv_init input] by (simp add: parseCsv_def csv_rows_def csv_init_def)
  show ?thesis
  proof (cases "csv_rows input")
    case Nil
    with e show ?thesis by simp
  next
    case (Cons h rs)
    then have "h \<in> set (rows_scan [] [] False input)" by (simp add: csv_rows_def)
    then have h: "h \<noteq> []" by (rule rows_scan_nonempty)
    then have "push_record ([], []) h = (h, [])" by (simp add: push_record_def)
    with e Cons h show ?thesis by (simp add: fold_push_record)
  qed
qed

lemma dom_fill_row:
  "length vs = length hs \<Longrightarrow> dom (fill_row row hs vs) = dom row \<union> (set hs - {''__proto__''})"
  by (induction row hs vs rule: fill_row.induct) (auto simp: set_prop_def split: list.splits)

lemma rows_scan_quoted:
  "\<not> next_is DQ rest \<Longrightarrow>
   rows_scan field row True (concat (map (\<lambda>c. if c = DQ then [DQ, DQ] else [c]) s) @ DQ # rest)
     = rows_scan (field @ s) row False rest"
  by (induction s arbitrary: field) (simp_all add: next_is_def)

lemma rows_scan_field:
  "\<not> next_is DQ rest \<Longrightarrow>
   rows_scan field row False (csv_field s @ rest) = rows_scan (field @ s) row False rest"
  by (simp add: csv_field_def rows_scan_quoted)

lemma rows_scan_line:
  "fs \<noteq> [] \<Longrightarrow>
   rows_scan [] row False (csv_line fs @ LF # rest) = (row @ map trim fs) # rows_scan [] [] False rest"
proof (induction fs arbitrary: row rule: csv_line.induct)
  case 1
  then show ?case by simp
next
  case (2 f)
  show ?case by (simp add: rows_scan_field next_is_def)
next
  case (3 f g gs)
  have "rows_scan [] row False (csv_line (f # g # gs) @ LF # rest) =
        rows_scan [] (row @ [trim f]) False (csv_line (g # gs) @ LF # rest)"
    by (simp add: rows_scan_field next_is_def)
  with 3 show ?case by simp
qed

lemma rows_scan_last_line:
  "fs \<noteq> [] \<Longrightarrow> last fs \<noteq> [] \<or> row \<noteq> [] \<or> 2 \<le> length fs \<Longrightarrow>
   rows_scan [] row False (csv_line fs) = [row @ map trim fs]"
proof (induction fs arbitrary: row rule: csv_line.induct)
  case 1
  then show ?case by simp
next
  case (2 f)
  have "rows_scan [] row False (csv_field f @ []) = rows_scan ([] @ f) row False []"
    by (rule rows_scan_field) (simp add: next_is_def)
  with 2 show ?case by simp
next
  case (3 f g gs)
  have "rows_scan [] row False (csv_line (f # g # gs)) =
        rows_scan [] (row @ [trim f]) False (csv_line (g # gs))"
    by (simp add: rows_scan_field next_is_def)
  with 3 show ?case by simp
qed

lemma rows_scan_text:
  "\<forall>fs\<in>set table. fs \<noteq> [] \<Longrightarrow>
   rows_scan [] [] False (csv_text table @ rest) = map (map trim) table @ rows_scan [] [] False rest"
  by (induction table) (simp_all add: csv_text_def rows_scan_line)

lemma csv_rows_text:
  "\<forall>fs\<in>set table. fs \<noteq> [] \<Longrightarrow> csv_rows (csv_text table) = map (map trim) table"
  using rows_scan_text[of table "[]"] by (simp add: csv_rows_def)

lemma csv_rows_text_unterminated:
  "\<forall>fs\<in>set table. fs \<noteq> [] \<Longrightarrow> fs \<noteq> [] \<Longrightarrow> last fs \<noteq> [] \<or> 2 \<le> length fs \<Longrightarrow>
   csv_rows (csv_text table @ csv_line fs) = map (map trim) table @ [map trim fs]"
  using rows_scan_text[of table "csv_line fs"] rows_scan_last_line[of fs "[]"]
  by (simp add: csv_rows_def)


section \<open>The renderer: the placeholder scheme\<close>

lemma after_simps [simp]: "after prev [] = prev" "after prev (c # cs) = after (Some c) cs"
  by (simp_all add: after_def)

lemma rmatch_lits:
  "rmatch (map lit str @ r) prev (str @ rest) opens caps = rmatch r (after prev str) rest opens caps"
  by (induction str arbitrary: prev) (simp_all add: lit_def)

lemma rmatch_Star_all:
  assumes "\<forall>c\<in>set ws. p c" and "rest = [] \<or> \<not> p (hd rest)"
    and "rmatch r (after prev ws) rest opens caps = Some m"
  shows "rmatch (Star p # r) prev (ws @ rest) opens caps = Some m"
  using assms
proof (induction ws arbitrary: prev)
  case Nil
  then show ?case by (cases rest) (simp_all split: option.splits)
next
  case (Cons c ws)
  then show ?case by simp
qed

lemma rmatch_Plus_all:
  assumes "ws \<noteq> []" "\<forall>c\<in>set ws. p c" and "rest = [] \<or> \<not> p (hd rest)"
    and "rmatch r (after prev ws) rest opens caps = Some m"
  shows "rmatch (Plus p # r) prev (ws @ rest) opens caps = Some m"
proof (cases ws)
  case Nil
  with assms show ?thesis by simp
next
  case (Cons c cs)
  with assms have "rmatch (Star p # r) (Some c) (cs @ rest) opens caps = Some m"
    by (intro rmatch_Star_all) simp_all
  with Cons assms show ?thesis by simp
qed

lemma digit_chars:
  assumes "n < 10"
  shows "is_digit (''0123456789'' ! n) \<and> of_char (''0123456789'' ! n) - 48 = n"
proof -
  have "[0..<10] = [0, 1, 2, 3, 4, 5, 6, 7, 8, 9 :: nat]" by (simp add: upt_rec)
  moreover from assms have "n \<in> set [0..<10]" by simp
  ultimately have "n \<in> set [0, 1, 2, 3, 4, 5, 6, 7, 8, 9 :: nat]" by simp
  then show ?thesis by (auto simp: is_digit_def)
qed

lemma show_nat_digits: "show_nat n \<noteq> [] \<and> (\<forall>c\<in>set (show_nat n). is_digit c)"
proof (induction n rule: show_nat.induct)
  case (1 n)
  show ?case
  proof (cases "n < 10")
    case True
    then show ?thesis using digit_chars[of n] by (subst (1 2) show_nat.simps) simp
  next
    case False
    then show ?thesis using 1 digit_chars[of "n mod 10"]
      by (subst (1 2) show_nat.simps) simp
  qed
qed

lemma parseInt_show_nat: "parseInt (show_nat n) = n"
proof (induction n rule: show_nat.induct)
  case (1 n)
  show ?case
  proof (cases "n < 10")
    case True
    then show ?thesis using digit_chars[of n] by (subst show_nat.simps) (simp add: parseInt_def)
  next
    case False
    with 1 have "parseInt (show_nat (n div 10)) = n div 10" by simp
    then show ?thesis using False digit_chars[of "n mod 10"]
      by (subst show_nat.simps) (simp add: parseInt_def)
  qed
qed

lemma placeholder_match_token:
  assumes "\<forall>c\<in>set ws. is_space c"
  shows "placeholder_match (ws @ placeholder_token k) = Some k"
proof -
  let ?ds = "show_nat k"
  have ds: "?ds \<noteq> []" "\<forall>c\<in>set ?ds. is_digit c" using show_nat_digits by auto
  let ?tail = "map lit ''__'' @ [Eos]"
  have 3: "rmatch (Close # ?tail) (after (Some (CHR ''_'')) ?ds) ''__'' [?ds @ ''__''] [ws]
            = Some ([ws, ?ds], Some (CHR ''_''), [])"
    using rmatch_lits[of "''__''" "[Eos]" _ "[]"] by (simp add: after_def)
  have 2: "rmatch (Plus is_digit # Close # ?tail) (Some (CHR ''_'')) (?ds @ ''__'') [?ds @ ''__''] [ws]
            = Some ([ws, ?ds], Some (CHR ''_''), [])"
    using ds 3 by (intro rmatch_Plus_all) (simp_all add: is_digit_def)
  let ?mid = "map lit ''__LIST_ITEM_'' @ [Open, Plus is_digit, Close] @ ?tail"
  have 1: "rmatch (Close # ?mid) (after None ws) (placeholder_token k) [ws @ placeholder_token k] []
            = Some ([ws, ?ds], Some (CHR ''_''), [])"
    using 2 rmatch_lits[of "''__LIST_ITEM_''" "[Open, Plus is_digit, Close] @ ?tail" "after None ws" "?ds @ ''__''"
         "[]" "[ws]"]
    by (simp add: placeholder_token_def after_def)
  have "rmatch (Star is_space # Close # ?mid) None (ws @ placeholder_token k) [ws @ placeholder_token k] []
            = Some ([ws, ?ds], Some (CHR ''_''), [])"
    using assms 1 by (intro rmatch_Star_all) (simp_all add: placeholder_token_def is_space_def)
  then show ?thesis
    by (simp add: placeholder_match_def placeholder_re_def grp_def parseInt_show_nat)
qed

lemma restore_item:
  assumes "\<forall>c\<in>set ws. is_space c" "k < length tbl"
  shows "restore_lists tbl inUL inOL ((ws @ placeholder_token k) # rest) =
     (case ptype (tbl ! k) of
        UL \<Rightarrow> (if \<not> inUL then (if inOL then [''</ol>''] else []) @ [''<ul>''] else [])
              @ (''<li>'' @ content (tbl ! k) @ ''</li>'')
              # restore_lists tbl True (if \<not> inUL then False else inOL) rest
      | OL \<Rightarrow> (if \<not> inOL then (if inUL then [''</ul>''] else []) @ [''<ol>''] else [])
              @ (''<li>'' @ content (tbl ! k) @ ''</li>'')
              # restore_lists tbl (if \<not> inOL then False else inUL) True rest)"
  using assms by (simp add: restore_lists.simps placeholder_match_token array_get_def split: list_type.splits)

lemma restore_stale:
  assumes "\<forall>c\<in>set ws. is_space c" "length tbl \<le> k"
  shows "restore_lists tbl inUL inOL ((ws @ placeholder_token k) # rest) =
           (ws @ placeholder_token k) # restore_lists tbl inUL inOL rest"
  using assms by (simp add: restore_lists.simps placeholder_match_token array_get_def)

lemma restore_ul_open:
  assumes "\<forall>(ws, k)\<in>set items. (\<forall>c\<in>set ws. is_space c) \<and> k < length tbl \<and> ptype (tbl ! k) = UL"
  shows "restore_lists tbl True inOL (map (\<lambda>(ws, k). ws @ placeholder_token k) items @ rest) =
         map (\<lambda>(ws, k). ''<li>'' @ content (tbl ! k) @ ''</li>'') items @ restore_lists tbl True inOL rest"
  using assms
proof (induction items)
  case Nil
  show ?case by simp
next
  case (Cons it items)
  obtain ws k where it: "it = (ws, k)" by (cases it)
  from Cons.prems it have "\<forall>c\<in>set ws. is_space c" "k < length tbl" "ptype (tbl ! k) = UL" by auto
  then have "restore_lists tbl True inOL ((ws @ placeholder_token k) # map (\<lambda>(ws, k). ws @ placeholder_token k) items @ rest)
     = (''<li>'' @ content (tbl ! k) @ ''</li>'') # restore_lists tbl True inOL (map (\<lambda>(ws, k). ws @ placeholder_token k) items @ rest)"
    by (simp add: restore_item)
  with Cons it show ?case by simp
qed

lemma restore_ol_open:
  assumes "\<forall>(ws, k)\<in>set items. (\<forall>c\<in>set ws. is_space c) \<and> k < length tbl \<and> ptype (tbl ! k) = OL"
  shows "restore_lists tbl inUL True (map (\<lambda>(ws, k). ws @ placeholder_token k) items @ rest) =
         map (\<lambda>(ws, k). ''<li>'' @ content (tbl ! k) @ ''</li>'') items @ restore_lists tbl inUL True rest"
  using assms
proof (induction items)
  case Nil
  show ?case by simp
next
  case (Cons it items)
  obtain ws k where it: "it = (ws, k)" by (cases it)
  from Cons.prems it have "\<forall>c\<in>set ws. is_space c" "k < length tbl" "ptype (tbl ! k) = OL" by auto
  then have "restore_lists tbl inUL True ((ws @ placeholder_token k) # map (\<lambda>(ws, k). ws @ placeholder_token k) items @ rest)
     = (''<li>'' @ content (tbl ! k) @ ''</li>'') # restore_lists tbl inUL True (map (\<lambda>(ws, k). ws @ placeholder_token k) items @ rest)"
    by (simp add: restore_item)
  with Cons it show ?case by simp
qed

lemma restore_ul_run:
  assumes "items \<noteq> []"
    and "\<forall>(ws, k)\<in>set items. (\<forall>c\<in>set ws. is_space c) \<and> k < length tbl \<and> ptype (tbl ! k) = UL"
  shows "restore_lists tbl False inOL (map (\<lambda>(ws, k). ws @ placeholder_token k) items @ rest) =
         (if inOL then [''</ol>''] else []) @ ''<ul>''
         # map (\<lambda>(ws, k). ''<li>'' @ content (tbl ! k) @ ''</li>'') items @ restore_lists tbl True False rest"
proof (cases items)
  case Nil
  with assms show ?thesis by simp
next
  case (Cons it more)
  obtain ws k where it: "it = (ws, k)" by (cases it)
  from assms(2) Cons it have h: "\<forall>c\<in>set ws. is_space c" "k < length tbl" "ptype (tbl ! k) = UL"
    and m: "\<forall>(ws, k)\<in>set more. (\<forall>c\<in>set ws. is_space c) \<and> k < length tbl \<and> ptype (tbl ! k) = UL"
    by auto
  show ?thesis
    using h by (simp add: Cons it restore_item restore_ul_open[OF m])
qed

lemma restore_ol_run:
  assumes "items \<noteq> []"
    and "\<forall>(ws, k)\<in>set items. (\<forall>c\<in>set ws. is_space c) \<and> k < length tbl \<and> ptype (tbl ! k) = OL"
  shows "restore_lists tbl inUL False (map (\<lambda>(ws, k). ws @ placeholder_token k) items @ rest) =
         (if inUL then [''</ul>''] else []) @ ''<ol>''
         # map (\<lambda>(ws, k). ''<li>'' @ content (tbl ! k) @ ''</li>'') items @ restore_lists tbl False True rest"
proof (cases items)
  case Nil
  with assms show ?thesis by simp
next
  case (Cons it more)
  obtain ws k where it: "it = (ws, k)" by (cases it)
  from assms(2) Cons it have h: "\<forall>c\<in>set ws. is_space c" "k < length tbl" "ptype (tbl ! k) = OL"
    and m: "\<forall>(ws, k)\<in>set more. (\<forall>c\<in>set ws. is_space c) \<and> k < length tbl \<and> ptype (tbl ! k) = OL"
    by auto
  show ?thesis
    using h by (simp add: Cons it restore_item restore_ol_open[OF m])
qed


section \<open>The renderer: text without markup\<close>

lemma replace_char_absent: "c \<notin> set s \<Longrightarrow> replace_char c rep s = s"
  by (induction s) (auto simp add: replace_char_def)

lemma rmatch_needs_One:
  "rmatch r prev s opens caps = Some m \<Longrightarrow> One p \<in> set r \<Longrightarrow> \<exists>c\<in>set s. p c"
  by (induction r prev s opens caps rule: rmatch.induct)
     (auto split: if_splits option.splits list.splits)

lemma rmatch_needs_Plus:
  "rmatch r prev s opens caps = Some m \<Longrightarrow> Plus p \<in> set r \<Longrightarrow> \<exists>c\<in>set s. p c"
  by (induction r prev s opens caps rule: rmatch.induct)
     (auto split: if_splits option.splits list.splits)

lemma rmatch_rest:
  "rmatch r prev s opens caps = Some (caps', prev', rest) \<Longrightarrow> set rest \<subseteq> set s"
  by (induction r prev s opens caps rule: rmatch.induct)
     (auto split: if_splits option.splits list.splits)

lemma re_scan_no_match:
  assumes "\<And>prev' s'. set s' \<subseteq> set s \<Longrightarrow> rmatch r prev' s' [] [] = None"
  shows "re_scan r prev s = map Copy s"
  using assms
proof (induction s arbitrary: prev)
  case Nil
  then have "rmatch r prev [] [] [] = None" by simp
  then show ?case by (subst re_scan.simps) simp
next
  case (Cons c cs)
  have "rmatch r prev (c # cs) [] [] = None" by (rule Cons.prems) simp
  moreover have "re_scan r (Some c) cs = map Copy cs"
    by (rule Cons.IH) (rule Cons.prems, auto)
  ultimately show ?case by (subst re_scan.simps) simp
qed

lemma re_scan_needs:
  assumes "One p \<in> set r \<or> Plus p \<in> set r" and "\<forall>c\<in>set s. \<not> p c"
  shows "re_scan r prev s = map Copy s"
proof (rule re_scan_no_match)
  fix prev' s' assume sub: "set s' \<subseteq> set s"
  show "rmatch r prev' s' [] [] = None"
  proof (rule ccontr)
    assume "rmatch r prev' s' [] [] \<noteq> None"
    then obtain m where "rmatch r prev' s' [] [] = Some m" by auto
    with assms(1) have "\<exists>c\<in>set s'. p c"
      using rmatch_needs_One rmatch_needs_Plus by blast
    with sub assms(2) show False by auto
  qed
qed

lemma concat_singletons: "concat (map (\<lambda>c. [c]) s) = s"
  by (induction s) simp_all

lemma concat_copies: "concat (map (\<lambda>p. case p of Copy c \<Rightarrow> [c] | Match caps \<Rightarrow> f caps) (map Copy s)) = s"
  unfolding map_map comp_def piece.case by (rule concat_singletons)

lemma concat_copies':
  "concat (map ((\<lambda>p. case p of Copy c \<Rightarrow> [c] | Match caps \<Rightarrow> f caps) \<circ> Copy) s) = s"
  unfolding comp_def piece.case by (rule concat_singletons)

lemma replace_all_needs:
  assumes "One p \<in> set r \<or> Plus p \<in> set r" and "\<forall>c\<in>set s. \<not> p c"
  shows "replace_all r f s = s"
  by (simp add: replace_all_def re_scan_needs[OF assms] concat_copies')

lemma extract_items_copies:
  "extract_items ty (map Copy s) (out, items) = (out @ s, items)"
  by (induction s arbitrary: out) (simp_all add: extract_items_def)

lemma space_chars:
  "is_space c \<Longrightarrow> c \<noteq> CHR ''&'' \<and> c \<noteq> CHR ''<'' \<and> c \<noteq> CHR ''>'' \<and> c \<noteq> CHR ''#'' \<and> c \<noteq> CHR ''*''
     \<and> c \<noteq> CHR ''-'' \<and> c \<noteq> CHR ''['' \<and> c \<noteq> CHR ''_'' \<and> \<not> is_digit c"
  by (auto simp: is_space_def is_digit_def)

lemma escape_html_spaces:
  assumes "\<forall>c\<in>set s. is_space c"
  shows "escape_html s = s"
proof -
  have "CHR ''&'' \<notin> set s" "CHR ''<'' \<notin> set s" "CHR ''>'' \<notin> set s"
    using assms space_chars by blast+
  then show ?thesis by (simp add: escape_html_def replace_char_absent)
qed

lemma header_re_needs: "One (\<lambda>x. x = CHR ''#'') \<in> set (header_re (Suc n))"
  by (simp add: header_re_def lit_def)

lemma headers_html_spaces:
  assumes "\<forall>c\<in>set s. is_space c"
  shows "headers_html s = s"
proof -
  have n: "\<forall>c\<in>set s. \<not> (\<lambda>x. x = CHR ''#'') c" using assms space_chars by auto
  have "replace_all (header_re (Suc k)) f s = s" for k f
    by (rule replace_all_needs[OF _ n]) (simp add: header_re_needs)
  from this[of 0] this[of 1] this[of 2] this[of 3] show ?thesis
    by (simp add: headers_html_def numeral_eq_Suc)
qed

lemma extract_lists_spaces:
  assumes "\<forall>c\<in>set s. is_space c"
  shows "extract_lists s = (s, [])"
proof -
  have "\<forall>c\<in>set s. \<not> (\<lambda>c. c = CHR ''*'' \<or> c = CHR ''-'') c" using assms space_chars by auto
  then have u: "re_scan ul_re None s = map Copy s"
    by (intro re_scan_needs[where p = "\<lambda>c. c = CHR ''*'' \<or> c = CHR ''-''"]) (simp_all add: ul_re_def)
  have "\<forall>c\<in>set s. \<not> is_digit c" using assms space_chars by auto
  then have o: "re_scan ol_re None s = map Copy s"
    by (intro re_scan_needs[where p = is_digit]) (simp_all add: ol_re_def)
  show ?thesis by (simp add: extract_lists_def u o extract_items_copies)
qed

lemma inline_spaces:
  assumes "\<forall>c\<in>set s. is_space c"
  shows "bold_html s = s" "italic_html s = s" "link_html s = s"
proof -
  have s: "\<forall>c\<in>set s. \<not> (\<lambda>x. x = CHR ''*'') c" using assms space_chars by auto
  show "bold_html s = s" unfolding bold_html_def
    by (rule replace_all_needs[OF _ s]) (simp add: bold_re_def lit_def)
  show "italic_html s = s" unfolding italic_html_def
    by (rule replace_all_needs[OF _ s]) (simp add: italic_re_def lit_def)
  have b: "\<forall>c\<in>set s. \<not> (\<lambda>x. x = CHR ''['') c" using assms space_chars by auto
  show "link_html s = s" unfolding link_html_def
    by (rule replace_all_needs[OF _ b]) (simp add: link_re_def lit_def)
qed


lemma split_on_nonempty: "split_on c s \<noteq> []"
  by (induction s) (simp_all split: list.splits)

lemma split_on_concat: "set (concat (split_on c s)) \<subseteq> set s"
proof (induction s)
  case Nil
  show ?case by simp
next
  case (Cons x xs)
  obtain l ls where sp: "split_on c xs = l # ls"
    using split_on_nonempty[of c xs] by (cases "split_on c xs") auto
  with Cons show ?case by auto
qed

lemma split_on_chars: "l \<in> set (split_on c s) \<Longrightarrow> set l \<subseteq> set s"
  using split_on_concat[of c s] by auto

lemma join_cons_char: "join sep ((x # l) # ls) = x # join sep (l # ls)"
  by (cases ls) simp_all

lemma join_split_on: "join [c] (split_on c s) = s"
proof (induction s)
  case Nil
  show ?case by simp
next
  case (Cons x xs)
  obtain l ls where sp: "split_on c xs = l # ls"
    using split_on_nonempty[of c xs] by (cases "split_on c xs") auto
  with Cons show ?case by (simp add: join_cons_char)
qed

lemma placeholder_match_needs:
  assumes "CHR ''_'' \<notin> set l"
  shows "placeholder_match l = None"
proof (cases "rmatch placeholder_re None l [] []")
  case None
  then show ?thesis by (simp add: placeholder_match_def)
next
  case (Some m)
  moreover have "One (\<lambda>x. x = CHR ''_'') \<in> set placeholder_re"
    by (simp add: placeholder_re_def lit_def)
  ultimately have "\<exists>c\<in>set l. c = CHR ''_''" by (rule rmatch_needs_One)
  with assms show ?thesis by simp
qed

lemma restore_lists_plain:
  "\<forall>l\<in>set ls. placeholder_match l = None \<Longrightarrow> restore_lists tbl False False ls = ls"
  by (induction ls) (simp_all add: restore_lists.simps close_lists_def)

lemma split_blank_chars:
  "p \<in> set (split_blank piece prev s) \<Longrightarrow> set p \<subseteq> set piece \<union> set s"
proof (induction s arbitrary: piece prev p rule: length_induct)
  case (1 s)
  show ?case
  proof (cases s)
    case Nil
    with 1(2) show ?thesis by (subst (asm) split_blank.simps) simp
  next
    case (Cons c cs)
    have step: "q \<in> set (split_blank (piece @ [c]) (Some c) cs) \<Longrightarrow> set q \<subseteq> set piece \<union> set s" for q
      using 1(1)[rule_format, of cs q "piece @ [c]" "Some c"] Cons by auto
    show ?thesis
    proof (cases "rmatch blank_re prev s [] []")
      case None
      with 1(2) Cons have "p \<in> set (split_blank (piece @ [c]) (Some c) cs)"
        by (subst (asm) split_blank.simps) simp
      then show ?thesis by (rule step)
    next
      case (Some m)
      obtain caps prev' rest where m: "m = (caps, prev', rest)" by (cases m)
      show ?thesis
      proof (cases "length rest < length s")
        case True
        with 1(2) Cons Some m have "p = piece \<or> p \<in> set (split_blank [] prev' rest)"
          by (subst (asm) split_blank.simps) auto
        moreover have "set rest \<subseteq> set s" using Some m rmatch_rest by blast
        moreover have "q \<in> set (split_blank [] prev' rest) \<Longrightarrow> set q \<subseteq> set rest" for q
          using 1(1)[rule_format, of rest q "[]" prev'] True by auto
        ultimately show ?thesis by auto
      next
        case False
        with 1(2) Cons Some m have "p \<in> set (split_blank (piece @ [c]) (Some c) cs)"
          by (subst (asm) split_blank.simps) simp
        then show ?thesis by (rule step)
      qed
    qed
  qed
qed


lemma trim_spaces:
  assumes "\<forall>c\<in>set s. is_space c"
  shows "trim s = []"
proof -
  from assms have d: "dropWhile is_space s = []" by (induction s) simp_all
  show ?thesis unfolding trim_def d by simp
qed

lemma render_paragraph_spaces:
  assumes "\<forall>c\<in>set s. is_space c"
  shows "render_paragraph s = []"
  using trim_spaces[OF assms] by (simp add: render_paragraph_def)

lemma join_empties: "\<forall>p\<in>set ps. p = [] \<Longrightarrow> join [c] ps = replicate (length ps - 1) c"
proof (induction ps)
  case Nil
  show ?case by simp
next
  case (Cons p ps)
  then show ?case by (cases ps) simp_all
qed

lemma parseMarkdown_spaces:
  assumes "\<forall>c\<in>set s. is_space c"
  shows "parseMarkdown s = replicate (length (split_blank [] None s) - 1) LF"
proof (cases "s = []")
  case True
  then show ?thesis by (simp add: parseMarkdown_def split_blank.simps)
next
  case False
  have lines: "\<forall>l\<in>set (split_on LF s). placeholder_match l = None"
  proof
    fix l assume "l \<in> set (split_on LF s)"
    then have "set l \<subseteq> set s" by (rule split_on_chars)
    with assms have "CHR ''_'' \<notin> set l" using space_chars by blast
    then show "placeholder_match l = None" by (rule placeholder_match_needs)
  qed
  have paras: "\<forall>p\<in>set (map render_paragraph (split_blank [] None s)). p = []"
  proof -
    have "render_paragraph p = []" if "p \<in> set (split_blank [] None s)" for p
    proof -
      from that have "set p \<subseteq> set s" using split_blank_chars by fastforce
      with assms show ?thesis by (intro render_paragraph_spaces) auto
    qed
    then show ?thesis by simp
  qed
  have "parseMarkdown s = join [LF] (map render_paragraph (split_blank [] None s))"
    using False
    by (simp add: parseMarkdown_def escape_html_spaces[OF assms] headers_html_spaces[OF assms]
        extract_lists_spaces[OF assms] inline_spaces[OF assms] restore_lists_plain[OF lines]
        join_split_on)
  also have "\<dots> = replicate (length (split_blank [] None s) - 1) LF"
    using join_empties[OF paras] by simp
  finally show ?thesis .
qed

lemma rmatch_blank:
  assumes "rmatch blank_re prev s [] [] = Some m"
  shows "\<exists>b. s = LF # LF # b"
proof (cases s)
  case Nil
  with assms show ?thesis by (simp add: blank_re_def lit_def)
next
  case (Cons c cs)
  show ?thesis
  proof (cases cs)
    case Nil
    with assms Cons show ?thesis by (simp add: blank_re_def lit_def split: if_splits)
  next
    case (Cons d ds)
    with assms \<open>s = c # cs\<close> show ?thesis by (simp add: blank_re_def lit_def split: if_splits)
  qed
qed

lemma split_blank_single:
  "\<not> (\<exists>a b. s = a @ LF # LF # b) \<Longrightarrow> split_blank piece prev s = [piece @ s]"
proof (induction s arbitrary: piece prev)
  case Nil
  show ?case by (subst split_blank.simps) simp
next
  case (Cons c cs)
  have none: "rmatch blank_re prev (c # cs) [] [] = None"
  proof (rule ccontr)
    assume "rmatch blank_re prev (c # cs) [] [] \<noteq> None"
    then obtain m where "rmatch blank_re prev (c # cs) [] [] = Some m" by auto
    from rmatch_blank[OF this] obtain b where "c # cs = [] @ LF # LF # b" by auto
    with Cons.prems show False by blast
  qed
  have "\<not> (\<exists>a b. cs = a @ LF # LF # b)"
  proof
    assume "\<exists>a b. cs = a @ LF # LF # b"
    then obtain a b where "cs = a @ LF # LF # b" by auto
    then have "c # cs = (c # a) @ LF # LF # b" by simp
    with Cons.prems show False by blast
  qed
  from Cons.IH[OF this] none show ?case by (subst split_blank.simps) simp
qed


section \<open>The CSV parser: the claims\<close>

lemmas csv_eval = parseCsv_def csv_init_def flush_def pushField_def pushRow_def trim_def is_space_def
      next_is_def set_prop_def LF_def CR_def DQ_def csv_field_def

lemma parseCsv_table:
  assumes "\<forall>fs\<in>set (h # table). fs \<noteq> []"
  shows "parseCsv (csv_text (h # table)) =
     map (fill_row Map.empty (map trim h)) (filter (\<lambda>r. length r = length h) (map (map trim) table))"
proof -
  have "csv_rows (csv_text (h # table)) = map trim h # map (map trim) table"
    using csv_rows_text[OF assms] by simp
  then show ?thesis by (simp add: parseCsv_csv_rows)
qed

lemma parseCsv_rows_of:
  assumes "csv_rows input = h # rs"
  shows "parseCsv input = map (fill_row Map.empty h) (filter (\<lambda>r. length r = length h) rs)"
    and "length (parseCsv input) = length rs - length (filter (\<lambda>r. length r \<noteq> length h) rs)"
    and "\<forall>r\<in>set rs. length r = length h \<Longrightarrow> length (parseCsv input) = length rs"
    and "\<forall>rec\<in>set (parseCsv input). dom rec = set h - {''__proto__''}"
proof -
  show p: "parseCsv input = map (fill_row Map.empty h) (filter (\<lambda>r. length r = length h) rs)"
    using assms by (simp add: parseCsv_csv_rows)
  have "length rs = length (filter (\<lambda>r. length r = length h) rs)
                  + length (filter (\<lambda>r. length r \<noteq> length h) rs)"
    using sum_length_filter_compl[of "\<lambda>r. length r = length h" rs] by simp
  then show "length (parseCsv input) = length rs - length (filter (\<lambda>r. length r \<noteq> length h) rs)"
    by (simp add: p)
  show "\<forall>r\<in>set rs. length r = length h \<Longrightarrow> length (parseCsv input) = length rs"
    by (simp add: p)
  show "\<forall>rec\<in>set (parseCsv input). dom rec = set h - {''__proto__''}"
    by (auto simp: p dom_fill_row)
qed

lemma rows_scan_fields_scan:
  "rows_scan field (map trim row) quoted input = map (map trim) (fields_scan field row quoted input)"
  by (induction field row quoted input rule: fields_scan.induct) auto

lemma csv_rows_decoded: "csv_rows input = map (map trim) (decoded_rows input)"
  using rows_scan_fields_scan[of "[]" "[]" False input] by (simp add: csv_rows_def decoded_rows_def)

lemma parseCsv_decoded_rows:
  "parseCsv input =
     (case decoded_rows input of
        [] \<Rightarrow> []
      | h # rs \<Rightarrow> map (fill_row Map.empty (map trim h))
                   (filter (\<lambda>r. length r = length h) (map (map trim) rs)))"
  by (simp add: parseCsv_csv_rows csv_rows_decoded split: list.splits)

lemma fill_row_other: "k \<notin> set hs \<Longrightarrow> fill_row row hs vs k = row k"
  by (induction row hs vs rule: fill_row.induct) (auto simp: set_prop_def)

lemma fill_row_last:
  "length vs = length hs \<Longrightarrow> i < length hs \<Longrightarrow> hs ! i \<noteq> ''__proto__'' \<Longrightarrow>
   hs ! i \<notin> set (drop (Suc i) hs) \<Longrightarrow> fill_row row hs vs (hs ! i) = Some (vs ! i)"
proof (induction row hs vs arbitrary: i rule: fill_row.induct)
  case (1 row vs)
  then show ?case by simp
next
  case (2 row header hs vs)
  then obtain v vs' where vs: "vs = v # vs'" by (cases vs) auto
  show ?case
  proof (cases i)
    case 0
    with 2 vs show ?thesis by (simp add: fill_row_other set_prop_def)
  next
    case (Suc j)
    with 2 vs show ?thesis by simp
  qed
qed

lemma fill_row_stored:
  assumes len: "length vs = length hs" and st: "fill_row Map.empty hs vs k = Some v"
  shows "k \<noteq> ''__proto__'' \<and> (\<exists>i<length hs. hs ! i = k \<and> vs ! i = v \<and> k \<notin> set (drop (Suc i) hs))"
proof -
  from st have "k \<in> dom (fill_row Map.empty hs vs)" by blast
  with len have k: "k \<in> set hs" "k \<noteq> ''__proto__''" by (simp_all add: dom_fill_row)
  from k(1) obtain ys zs where hs: "hs = ys @ k # zs" and zs: "k \<notin> set zs"
    using split_list_last by fastforce
  let ?i = "length ys"
  have i: "?i < length hs" "hs ! ?i = k" "k \<notin> set (drop (Suc ?i) hs)"
    using hs zs by simp_all
  with fill_row_last[of vs hs ?i Map.empty] len k(2) st have "vs ! ?i = v" by simp
  with i k(2) show ?thesis by blast
qed

lemma fields_scan_quoted:
  "\<not> next_is DQ rest \<Longrightarrow>
   fields_scan field row True (concat (map (\<lambda>c. if c = DQ then [DQ, DQ] else [c]) s) @ DQ # rest)
     = fields_scan (field @ s) row False rest"
  by (induction s arbitrary: field) (simp_all add: next_is_def)

lemma fields_scan_field:
  "\<not> next_is DQ rest \<Longrightarrow>
   fields_scan field row False (csv_field s @ rest) = fields_scan (field @ s) row False rest"
  by (simp add: csv_field_def fields_scan_quoted)

lemma fields_scan_line:
  "fs \<noteq> [] \<Longrightarrow>
   fields_scan [] row False (csv_line fs @ LF # rest) = (row @ fs) # fields_scan [] [] False rest"
proof (induction fs arbitrary: row rule: csv_line.induct)
  case 1
  then show ?case by simp
next
  case (2 f)
  show ?case by (simp add: fields_scan_field next_is_def)
next
  case (3 f g gs)
  have "fields_scan [] row False (csv_line (f # g # gs) @ LF # rest) =
        fields_scan [] (row @ [f]) False (csv_line (g # gs) @ LF # rest)"
    by (simp add: fields_scan_field next_is_def)
  with 3 show ?case by simp
qed

lemma decoded_rows_text:
  assumes "\<forall>fs\<in>set table. fs \<noteq> []"
  shows "decoded_rows (csv_text table) = table"
proof -
  have "fields_scan [] [] False (csv_text table @ rest) = table @ fields_scan [] [] False rest" for rest
    using assms by (induction table) (simp_all add: csv_text_def fields_scan_line)
  from this[of "[]"] show ?thesis by (simp add: decoded_rows_def)
qed

lemma fields_scan_plain:
  "\<forall>c\<in>set f. c \<notin> {DQ, CHR '','', LF, CR} \<Longrightarrow>
   fields_scan field row False (f @ rest) = fields_scan (field @ f) row False rest"
  by (induction f arbitrary: field) simp_all

lemma fields_scan_plain_line:
  "fs \<noteq> [] \<Longrightarrow> \<forall>f\<in>set fs. \<forall>c\<in>set f. c \<notin> {DQ, CHR '','', LF, CR} \<Longrightarrow>
   fields_scan [] row False (join '','' fs @ LF # rest) = (row @ fs) # fields_scan [] [] False rest"
proof (induction "'',''" fs arbitrary: row rule: join.induct)
  case 1
  then show ?case by simp
next
  case (2 f)
  then show ?case by (simp add: fields_scan_plain)
next
  case (3 f g gs)
  from 3(3) have f: "\<forall>c\<in>set f. c \<notin> {DQ, CHR '','', LF, CR}" by simp
  have "fields_scan [] row False (join '','' (f # g # gs) @ LF # rest) =
        fields_scan [] (row @ [f]) False (join '','' (g # gs) @ LF # rest)"
    using fields_scan_plain[OF f, of "[]" row] by simp
  with 3 show ?case by simp
qed

lemma decoded_rows_plain_text:
  assumes "\<forall>fs\<in>set table. fs \<noteq> [] \<and> (\<forall>f\<in>set fs. \<forall>c\<in>set f. c \<notin> {DQ, CHR '','', LF, CR})"
  shows "decoded_rows (plain_text table) = table"
proof -
  have "fields_scan [] [] False (plain_text table @ rest) = table @ fields_scan [] [] False rest" for rest
    using assms by (induction table) (simp_all add: plain_text_def fields_scan_plain_line)
  from this[of "[]"] show ?thesis by (simp add: decoded_rows_def)
qed

lemma decoded_examples:
  "decoded_rows (''k, v'' @ [LF] @ '' 1 ,'' @ [DQ] @ '' x,'' @ [DQ, DQ] @ ''y '' @ [DQ, CR, LF] @ ''2'' @ [LF] @ ''3,'')
     = [[''k'', '' v''], ['' 1 '', '' x,'' @ [DQ] @ ''y ''], [''2''], [''3'', []]]"
  by (simp add: decoded_rows_def next_is_def DQ_def LF_def CR_def)

text \<open>
  C2, amended. For every text, the records are those of its rows of decoded fields: the
  first row, each name trimmed, is the header, and every later row with as many fields as
  the header gives a record. A cell that a record stores is the trimmed decoded field of the
  last column that bears its name, and every name not borne by a later column has that
  cell, except the name \<open>__proto__\<close>. Decoding undoes the writing of a table whose rows have
  a field each, written with the fields between commas and every row ended by a line feed:
  it gives the table back when every field is in quotes (each quote inside doubled), and
  when the fields are written as they are and hold no quote, comma, line feed or carriage
  return. So a table written in quotes parses to the records of its rows, every cell
  trimmed. For one column whose trimmed name is not \<open>__proto__\<close> and one field \<open>s\<close>, the text
  in quotes parses to one record whose cell is \<open>s\<close> trimmed, whatever commas, line breaks and
  quotes \<open>s\<close> holds; the same holds when the line feed after the last row is missing,
  provided \<open>s\<close> is not empty. The row \<open>a, b ,c\<close> under the header \<open>x,y,z\<close> gives
  \<open>{x: a, y: b, z: c}\<close>.
\<close>

theorem parseCsv_quoted_roundtrip:
  "parseCsv input =
     (case decoded_rows input of
        [] \<Rightarrow> []
      | h # rs \<Rightarrow> map (fill_row Map.empty (map trim h))
                   (filter (\<lambda>r. length r = length h) (map (map trim) rs)))
   \<and> (length fs = length hs \<and> fill_row Map.empty hs (map trim fs) k = Some v \<longrightarrow>
        k \<noteq> ''__proto__'' \<and>
        (\<exists>i<length hs. hs ! i = k \<and> v = trim (fs ! i) \<and> k \<notin> set (drop (Suc i) hs)))
   \<and> (length fs = length hs \<and> i < length hs \<and> hs ! i \<noteq> ''__proto__''
        \<and> hs ! i \<notin> set (drop (Suc i) hs) \<longrightarrow>
        fill_row Map.empty hs (map trim fs) (hs ! i) = Some (trim (fs ! i)))
   \<and> ((\<forall>fs\<in>set table. fs \<noteq> []) \<longrightarrow> decoded_rows (csv_text table) = table)
   \<and> ((\<forall>fs\<in>set table. fs \<noteq> [] \<and> (\<forall>f\<in>set fs. \<forall>c\<in>set f. c \<notin> {DQ, CHR '','', LF, CR}))
        \<longrightarrow> decoded_rows (plain_text table) = table)
   \<and> ((\<forall>fs\<in>set (h # recs). fs \<noteq> []) \<longrightarrow>
        parseCsv (csv_text (h # recs)) =
          map (fill_row Map.empty (map trim h))
              (filter (\<lambda>r. length r = length h) (map (map trim) recs)))
   \<and> (trim name \<noteq> ''__proto__'' \<longrightarrow>
        parseCsv (csv_field name @ [LF] @ csv_field s @ [LF]) = [[trim name \<mapsto> trim s]])
   \<and> (trim name \<noteq> ''__proto__'' \<and> s \<noteq> [] \<longrightarrow>
        parseCsv (csv_field name @ [LF] @ csv_field s) = [[trim name \<mapsto> trim s]])
   \<and> parseCsv (''x,y,z'' @ [LF] @ ''a, b ,c'')
        = [[''x'' \<mapsto> ''a'', ''y'' \<mapsto> ''b'', ''z'' \<mapsto> ''c'']]"
proof -
  have a: "parseCsv input =
     (case decoded_rows input of
        [] \<Rightarrow> []
      | h # rs \<Rightarrow> map (fill_row Map.empty (map trim h))
                   (filter (\<lambda>r. length r = length h) (map (map trim) rs)))"
    by (rule parseCsv_decoded_rows)
  have b: "length fs = length hs \<and> fill_row Map.empty hs (map trim fs) k = Some v \<longrightarrow>
        k \<noteq> ''__proto__'' \<and>
        (\<exists>i<length hs. hs ! i = k \<and> v = trim (fs ! i) \<and> k \<notin> set (drop (Suc i) hs))"
  proof
    assume h: "length fs = length hs \<and> fill_row Map.empty hs (map trim fs) k = Some v"
    with fill_row_stored[of "map trim fs" hs k v]
    obtain i where "k \<noteq> ''__proto__''" "i < length hs" "hs ! i = k" "map trim fs ! i = v"
        "k \<notin> set (drop (Suc i) hs)"
      by auto
    with h show "k \<noteq> ''__proto__'' \<and>
        (\<exists>i<length hs. hs ! i = k \<and> v = trim (fs ! i) \<and> k \<notin> set (drop (Suc i) hs))"
      by auto
  qed
  have c: "length fs = length hs \<and> i < length hs \<and> hs ! i \<noteq> ''__proto__''
        \<and> hs ! i \<notin> set (drop (Suc i) hs) \<longrightarrow>
        fill_row Map.empty hs (map trim fs) (hs ! i) = Some (trim (fs ! i))"
    using fill_row_last[of "map trim fs" hs i Map.empty] by simp
  have d: "(\<forall>fs\<in>set table. fs \<noteq> []) \<longrightarrow> decoded_rows (csv_text table) = table"
    using decoded_rows_text by blast
  have d': "(\<forall>fs\<in>set table. fs \<noteq> [] \<and> (\<forall>f\<in>set fs. \<forall>c\<in>set f. c \<notin> {DQ, CHR '','', LF, CR}))
        \<longrightarrow> decoded_rows (plain_text table) = table"
    using decoded_rows_plain_text by blast
  have q: "(\<forall>fs\<in>set (h # recs). fs \<noteq> []) \<longrightarrow>
        parseCsv (csv_text (h # recs)) =
          map (fill_row Map.empty (map trim h))
              (filter (\<lambda>r. length r = length h) (map (map trim) recs))"
    using parseCsv_table by blast
  have e: "trim name \<noteq> ''__proto__'' \<longrightarrow>
        parseCsv (csv_field name @ [LF] @ csv_field s @ [LF]) = [[trim name \<mapsto> trim s]]"
  proof
    assume n: "trim name \<noteq> ''__proto__''"
    have "parseCsv (csv_text [[name], [s]]) = [fill_row Map.empty [trim name] [trim s]]"
      using parseCsv_table[of "[name]" "[[s]]"] by simp
    with n show "parseCsv (csv_field name @ [LF] @ csv_field s @ [LF]) = [[trim name \<mapsto> trim s]]"
      by (simp add: csv_text_def set_prop_def)
  qed
  have f: "trim name \<noteq> ''__proto__'' \<and> s \<noteq> [] \<longrightarrow>
        parseCsv (csv_field name @ [LF] @ csv_field s) = [[trim name \<mapsto> trim s]]"
  proof
    assume n: "trim name \<noteq> ''__proto__'' \<and> s \<noteq> []"
    then have "csv_rows (csv_text [[name]] @ csv_line [s]) = [[trim name], [trim s]]"
      using csv_rows_text_unterminated[of "[[name]]" "[s]"] by simp
    with n show "parseCsv (csv_field name @ [LF] @ csv_field s) = [[trim name \<mapsto> trim s]]"
      by (simp add: parseCsv_csv_rows csv_text_def set_prop_def)
  qed
  have g: "parseCsv (''x,y,z'' @ [LF] @ ''a, b ,c'')
        = [[''x'' \<mapsto> ''a'', ''y'' \<mapsto> ''b'', ''z'' \<mapsto> ''c'']]"
    by (simp add: csv_eval)
  from a b c d d' q e f g show ?thesis by (intro conjI)
qed

theorem parseCsv_quoted_roundtrip_witness:
  "parseCsv (csv_field '' id '' @ [LF] @ csv_field ('' a,'' @ [DQ] @ ''b'' @ [DQ, LF] @ ''c '') @ [LF])
     = [[''id'' \<mapsto> ''a,'' @ [DQ] @ ''b'' @ [DQ, LF] @ ''c'']]
   \<and> parseCsv (csv_field ''id'' @ [LF] @ csv_field '' a '') = [[''id'' \<mapsto> ''a'']]
   \<and> parseCsv (''k, v'' @ [LF] @ '' 1 ,'' @ [DQ] @ '' x,'' @ [DQ, DQ] @ ''y '' @ [DQ, CR, LF] @ ''2'' @ [LF] @ ''3,'')
     = [[''k'' \<mapsto> ''1'', ''v'' \<mapsto> ''x,'' @ [DQ] @ ''y''], [''k'' \<mapsto> ''3'', ''v'' \<mapsto> []]]
   \<and> parseCsv (csv_text [[''k'', ''v''], [''1'', '' x ''], [''2''], [''3'', []]])
     = [[''k'' \<mapsto> ''1'', ''v'' \<mapsto> ''x''], [''k'' \<mapsto> ''3'', ''v'' \<mapsto> []]]
   \<and> decoded_rows (csv_text [[''k'', ''v''], [''1'', '' x '']]) = [[''k'', ''v''], [''1'', '' x '']]
   \<and> decoded_rows (plain_text [[''k'', ''v''], [''1'', '' x '']]) = [[''k'', ''v''], [''1'', '' x '']]
   \<and> fill_row Map.empty [''a'', ''b'', ''a''] (map trim ['' 1'', ''2 '', '' 3 '']) ''a'' = Some ''3''
   \<and> (\<exists>i<3. [''a'', ''b'', ''a''] ! i = ''a'' \<and> ''3'' = trim (['' 1'', ''2 '', '' 3 ''] ! i)
              \<and> ''a'' \<notin> set (drop (Suc i) [''a'', ''b'', ''a'']))"
proof -
  note t = parseCsv_quoted_roundtrip
    [where name = "'' id ''" and s = "'' a,'' @ [DQ] @ ''b'' @ [DQ, LF] @ ''c ''"
       and input = "''k, v'' @ [LF] @ '' 1 ,'' @ [DQ] @ '' x,'' @ [DQ, DQ] @ ''y '' @ [DQ, CR, LF] @ ''2'' @ [LF] @ ''3,''"
       and table = "[[''k'', ''v''], [''1'', '' x '']]"
       and hs = "[''a'', ''b'', ''a'']" and fs = "['' 1'', ''2 '', '' 3 '']" and i = 2
       and k = "''a''" and v = "''3''"
       and h = "[''k'', ''v'']" and recs = "[[''1'', '' x ''], [''2''], [''3'', []]]"]
  note u = parseCsv_quoted_roundtrip [where name = "''id''" and s = "'' a ''"]
  note ev = trim_def is_space_def set_prop_def DQ_def LF_def CR_def
  have a: "parseCsv (''k, v'' @ [LF] @ '' 1 ,'' @ [DQ] @ '' x,'' @ [DQ, DQ] @ ''y '' @ [DQ, CR, LF] @ ''2'' @ [LF] @ ''3,'')
     = [[''k'' \<mapsto> ''1'', ''v'' \<mapsto> ''x,'' @ [DQ] @ ''y''], [''k'' \<mapsto> ''3'', ''v'' \<mapsto> []]]"
    using t[THEN conjunct1] decoded_examples by (simp add: ev)
  have c: "fill_row Map.empty [''a'', ''b'', ''a''] (map trim ['' 1'', ''2 '', '' 3 '']) ''a'' = Some ''3''"
    using t[THEN conjunct2, THEN conjunct2, THEN conjunct1] by (simp add: ev)
  have b: "\<exists>i<3. [''a'', ''b'', ''a''] ! i = ''a'' \<and> ''3'' = trim (['' 1'', ''2 '', '' 3 ''] ! i)
              \<and> ''a'' \<notin> set (drop (Suc i) [''a'', ''b'', ''a''])"
    using t[THEN conjunct2, THEN conjunct1] c by (simp add: numeral_3_eq_3)
  have d: "decoded_rows (csv_text [[''k'', ''v''], [''1'', '' x '']]) = [[''k'', ''v''], [''1'', '' x '']]"
    using t[THEN conjunct2, THEN conjunct2, THEN conjunct2, THEN conjunct1] by simp
  have d': "decoded_rows (plain_text [[''k'', ''v''], [''1'', '' x '']]) = [[''k'', ''v''], [''1'', '' x '']]"
    using t[THEN conjunct2, THEN conjunct2, THEN conjunct2, THEN conjunct2, THEN conjunct1]
    by (simp add: DQ_def LF_def CR_def)
  have q: "parseCsv (csv_text [[''k'', ''v''], [''1'', '' x ''], [''2''], [''3'', []]])
     = [[''k'' \<mapsto> ''1'', ''v'' \<mapsto> ''x''], [''k'' \<mapsto> ''3'', ''v'' \<mapsto> []]]"
    using t[THEN conjunct2, THEN conjunct2, THEN conjunct2, THEN conjunct2, THEN conjunct2,
            THEN conjunct1]
    by (simp add: ev)
  have e: "parseCsv (csv_field '' id '' @ [LF] @ csv_field ('' a,'' @ [DQ] @ ''b'' @ [DQ, LF] @ ''c '') @ [LF])
     = [[''id'' \<mapsto> ''a,'' @ [DQ] @ ''b'' @ [DQ, LF] @ ''c'']]"
    using t[THEN conjunct2, THEN conjunct2, THEN conjunct2, THEN conjunct2, THEN conjunct2,
            THEN conjunct2, THEN conjunct1]
    by (simp add: ev)
  have f: "parseCsv (csv_field ''id'' @ [LF] @ csv_field '' a '') = [[''id'' \<mapsto> ''a'']]"
    using u[THEN conjunct2, THEN conjunct2, THEN conjunct2, THEN conjunct2, THEN conjunct2,
            THEN conjunct2, THEN conjunct2, THEN conjunct1]
    by (simp add: ev)
  from e f a q d d' c b show ?thesis by (intro conjI)
qed

text \<open>
  An empty field in quotes that ends the text, alone on its row, is lost: after the closing
  quote \<open>currentField\<close> and \<open>currentRow\<close> are both empty, so the statement after the loop
  pushes nothing. And a header that is \<open>__proto__\<close> once trimmed gives a record without the
  cell.
\<close>

theorem parseCsv_unterminated_empty_counterexample:
  "parseCsv (csv_field ''h'' @ [LF] @ csv_field []) = []
   \<and> parseCsv (csv_field '' __proto__'' @ [LF] @ csv_field ''v'' @ [LF]) = [Map.empty]"
  by (simp add: csv_eval)

text \<open>
  C3. The records are those of the completed rows after the first that have as many fields
  as it has: their number is the number of those rows, less one for each row of another
  length, and the first row itself is never among them. Their keys are the names in the
  first row, except the name \<open>__proto__\<close>: the assignment \<open>row[header] = \<dots>\<close> stores nothing
  under it, so a table with such a column gives records without that key.
\<close>

theorem parseCsv_proto_header:
  "parseCsv (''__proto__,a'' @ [LF] @ ''1,2'') = [[''a'' \<mapsto> ''2'']]"
  by (simp add: csv_eval)


section \<open>The JSON envelope: the claim\<close>

lemma candidate_examples:
  \<open>json_candidate (''```json'' @ [LF] @ ''{"document_summary":"hi"}'' @ [LF] @ ''```'')
     = Some ''{"document_summary":"hi"}''\<close>
  \<open>json_candidate ''{"document_summary":""}'' = Some ''{"document_summary":""}''\<close>
  \<open>json_candidate ''{"document_summary":"a } b"}'' = Some ''{"document_summary":"a }''\<close>
  \<open>json_candidate ''plain text'' = None\<close>
  \<open>json_candidate ''{"document_summary":"a { b"}'' = Some []\<close>
  by code_simp+

lemma extract_cases:
  "extractSummaryText json_parse s =
     (case json_candidate s of
        None \<Rightarrow> Inr (JStr s)
      | Some jsonStr \<Rightarrow>
          (case json_parse jsonStr of
             Some (JObj ps) \<Rightarrow>
               (case map_of ps ''document_summary'' of
                  Some v \<Rightarrow> if truthy v then Inr v else Inr (JStr s)
                | None \<Rightarrow> Inr (JStr s))
           | _ \<Rightarrow> Inr (JStr s)))"
proof (cases "s = []")
  case True
  then show ?thesis
    by (simp add: extractSummaryText_def json_candidate_def trim_def starts_with_def)
next
  case False
  then show ?thesis
    by (simp add: extractSummaryText_def extract_body_def split: option.splits jsval.splits sum.splits)
qed

lemma bal_Nil [simp]: "bal [] = 0"
  by (simp add: bal_def)

lemma bal_Cons [simp]:
  "bal (c # cs) = (if c = CHR ''{'' then 1 else if c = CHR ''}'' then - 1 else 0) + bal cs"
  by (simp add: bal_def)

lemma index_of_absent: "c \<notin> set xs \<Longrightarrow> index_of c xs = None"
  by (induction xs) auto

lemma index_of_first: "c \<notin> set pre \<Longrightarrow> index_of c (pre @ c # rest) = Some (length pre)"
  by (induction pre) auto

lemma index_of_SomeD:
  "index_of c xs = Some n \<Longrightarrow> n < length xs \<and> xs ! n = c \<and> c \<notin> set (take n xs)"
proof (induction xs arbitrary: n)
  case Nil
  then show ?case by simp
next
  case (Cons x xs)
  show ?case
  proof (cases "x = c")
    case True
    with Cons.prems show ?thesis by simp
  next
    case False
    with Cons.prems obtain m where m: "index_of c xs = Some m" "n = Suc m" by auto
    from Cons.IH[OF m(1)] m(2) False show ?thesis by simp
  qed
qed

lemma find_end_Some:
  "1 \<le> d \<Longrightarrow> j \<noteq> [] \<Longrightarrow> d + bal j = 0 \<Longrightarrow>
   (\<forall>k. 0 < k \<and> k < length j \<longrightarrow> d + bal (take k j) \<noteq> 0) \<Longrightarrow>
   find_end d i (j @ post) = Some (i + length j)"
proof (induction j arbitrary: d i)
  case Nil
  then show ?case by simp
next
  case (Cons c j)
  let ?d = "d + (if c = CHR ''{'' then 1 else if c = CHR ''}'' then - 1 else 0)"
  have rest: "\<forall>k. 0 < k \<and> k < length j \<longrightarrow> ?d + bal (take k j) \<noteq> 0"
  proof (intro allI impI)
    fix k assume "0 < k \<and> k < length j"
    then have "0 < Suc k \<and> Suc k < length (c # j)" by simp
    with Cons.prems(4) have "d + bal (take (Suc k) (c # j)) \<noteq> 0" by blast
    then show "?d + bal (take k j) \<noteq> 0" by (simp split: if_splits)
  qed
  have tot: "?d + bal j = 0" using Cons.prems(3) by (simp split: if_splits)
  show ?case
  proof (cases "j = []")
    case True
    with tot Cons.prems(1) show ?thesis by (auto split: if_splits)
  next
    case False
    then have "0 < (1::nat) \<and> 1 < length (c # j)" by (cases j) auto
    with Cons.prems(4) have "d + bal (take 1 (c # j)) \<noteq> 0" by blast
    then have nz: "?d \<noteq> 0" by (simp split: if_splits)
    with Cons.prems(1) have pos: "1 \<le> ?d" by (simp split: if_splits)
    from Cons.IH[OF pos False tot rest, of "i + 1"] nz show ?thesis
      by (auto split: if_splits)
  qed
qed

lemma find_end_SomeD:
  "find_end d i cs = Some e \<Longrightarrow> 1 \<le> d \<Longrightarrow>
   \<exists>j post. cs = j @ post \<and> j \<noteq> [] \<and> e = i + length j \<and> d + bal j = 0
     \<and> (\<forall>k. 0 < k \<and> k < length j \<longrightarrow> d + bal (take k j) \<noteq> 0)"
proof (induction d i cs rule: find_end.induct)
  case (1 depth i)
  then show ?case by simp
next
  case (2 depth i c cs)
  let ?d = "depth + (if c = CHR ''{'' then 1 else if c = CHR ''}'' then - 1 else 0)"
  show ?case
  proof (cases "c = CHR ''}'' \<and> depth - 1 = 0")
    case True
    with "2.prems" have "e = i + 1" by simp
    with True have "c # cs = [c] @ cs \<and> [c] \<noteq> [] \<and> e = i + length [c] \<and> depth + bal [c] = 0
       \<and> (\<forall>k. 0 < k \<and> k < length [c] \<longrightarrow> depth + bal (take k [c]) \<noteq> 0)"
      by simp
    then show ?thesis by blast
  next
    case False
    with "2.prems" have rec: "find_end ?d (i + 1) cs = Some e"
      by (auto split: if_splits)
    from False "2.prems"(2) have pos: "1 \<le> ?d" by (auto split: if_splits)
    have "\<exists>j post. cs = j @ post \<and> j \<noteq> [] \<and> e = i + 1 + length j \<and> ?d + bal j = 0
       \<and> (\<forall>k. 0 < k \<and> k < length j \<longrightarrow> ?d + bal (take k j) \<noteq> 0)"
    proof (cases "c = CHR ''{''")
      case True
      with "2.IH"(1)[OF True] rec pos show ?thesis by simp
    next
      case nb: False
      show ?thesis
      proof (cases "c = CHR ''}''")
        case True
        with False have "depth - 1 \<noteq> 0" by simp
        with "2.IH"(2)[OF nb True this] rec pos True nb show ?thesis by simp
      next
        case False
        with "2.IH"(3)[OF nb False] rec pos nb show ?thesis by simp
      qed
    qed
    then obtain j post where j: "cs = j @ post" "j \<noteq> []" "e = i + 1 + length j" "?d + bal j = 0"
      "\<forall>k. 0 < k \<and> k < length j \<longrightarrow> ?d + bal (take k j) \<noteq> 0"
      by blast
    have pre: "\<forall>k. 0 < k \<and> k < length (c # j) \<longrightarrow> depth + bal (take k (c # j)) \<noteq> 0"
    proof (intro allI impI)
      fix k assume k: "0 < k \<and> k < length (c # j)"
      then obtain m where m: "k = Suc m" by (cases k) auto
      show "depth + bal (take k (c # j)) \<noteq> 0"
      proof (cases "m = 0")
        case True
        with m pos show ?thesis by (simp split: if_splits)
      next
        case False
        with k m j(5) have "?d + bal (take m j) \<noteq> 0" by simp
        with m show ?thesis by (simp split: if_splits)
      qed
    qed
    from j pre have "c # cs = (c # j) @ post \<and> c # j \<noteq> [] \<and> e = i + length (c # j)
        \<and> depth + bal (c # j) = 0
        \<and> (\<forall>k. 0 < k \<and> k < length (c # j) \<longrightarrow> depth + bal (take k (c # j)) \<noteq> 0)"
      by (simp split: if_splits)
    then show ?thesis by blast
  qed
qed

lemma starts_with_prefix: "starts_with x (p @ q) \<Longrightarrow> starts_with x p"
proof -
  assume a: "starts_with x (p @ q)"
  have "take (length p) x = take (length p) (take (length (p @ q)) x)" by (simp add: min_def)
  also have "\<dots> = take (length p) (p @ q)" using a by (simp add: starts_with_def)
  finally show ?thesis by (simp add: starts_with_def)
qed

lemma matched_braces_iff:
  "matched_braces j \<longleftrightarrow>
     (\<exists>j'. j = CHR ''{'' # j' \<and> 1 + bal j' = 0
           \<and> (\<forall>k. 0 < k \<and> k < length j' \<longrightarrow> 1 + bal (take k j') \<noteq> 0))"
proof
  assume m: "matched_braces j"
  then obtain j' where j: "j = CHR ''{'' # j'"
    by (cases j) (auto simp: matched_braces_def)
  have "\<forall>k. 0 < k \<and> k < length j' \<longrightarrow> 1 + bal (take k j') \<noteq> 0"
  proof (intro allI impI)
    fix k assume "0 < k \<and> k < length j'"
    then have "Suc k \<in> set [1..<length j]" using j by auto
    with m have "bal (take (Suc k) j) \<noteq> 0" by (simp add: matched_braces_def list_all_iff)
    with j show "1 + bal (take k j') \<noteq> 0" by simp
  qed
  with m j show "\<exists>j'. j = CHR ''{'' # j' \<and> 1 + bal j' = 0
           \<and> (\<forall>k. 0 < k \<and> k < length j' \<longrightarrow> 1 + bal (take k j') \<noteq> 0)"
    by (simp add: matched_braces_def)
next
  assume "\<exists>j'. j = CHR ''{'' # j' \<and> 1 + bal j' = 0
           \<and> (\<forall>k. 0 < k \<and> k < length j' \<longrightarrow> 1 + bal (take k j') \<noteq> 0)"
  then obtain j' where j: "j = CHR ''{'' # j'" "1 + bal j' = 0"
      "\<forall>k. 0 < k \<and> k < length j' \<longrightarrow> 1 + bal (take k j') \<noteq> 0"
    by blast
  have "bal (take k j) \<noteq> 0" if "k \<in> set [1..<length j]" for k
  proof -
    from that have "1 \<le> k \<and> k < length j" by (simp only: set_upt atLeastLessThan_iff)
    then obtain m where m: "k = Suc m" "m < length j'" using j(1) by (cases k) auto
    show ?thesis
    proof (cases "m = 0")
      case True
      with m j(1) show ?thesis by simp
    next
      case False
      with m j(3) have "1 + bal (take m j') \<noteq> 0" by simp
      with m j(1) show ?thesis by simp
    qed
  qed
  with j show "matched_braces j" by (simp add: matched_braces_def list_all_iff)
qed

lemma json_candidate_span:
  assumes g: "starts_with (trim s) ''{'' \<or> starts_with (trim s) ''```''"
    and cl: "strip_fence (trim s) = pre @ j @ post"
    and np: "CHR ''{'' \<notin> set pre"
    and mb: "matched_braces j"
  shows "json_candidate s = Some j"
proof -
  from mb obtain j' where j: "j = CHR ''{'' # j'" "1 + bal j' = 0"
      "\<forall>k. 0 < k \<and> k < length j' \<longrightarrow> 1 + bal (take k j') \<noteq> 0"
    unfolding matched_braces_iff by blast
  from j(2) have ne: "j' \<noteq> []" by auto
  have idx: "index_of (CHR ''{'') (strip_fence (trim s)) = Some (length pre)"
    using index_of_first[OF np, of "j' @ post"] cl j(1) by simp
  have dr: "drop (length pre) (strip_fence (trim s)) = CHR ''{'' # j' @ post"
    using cl j(1) by simp
  have fe: "find_end 0 (length pre) (CHR ''{'' # j' @ post) = Some (length pre + 1 + length j')"
    using find_end_Some[of 1 j' "length pre + 1" post] ne j(2,3) by simp
  from g idx dr fe j(1) show ?thesis
    by (auto simp add: json_candidate_def Let_def)
qed

lemma json_candidate_SomeD:
  assumes c: "json_candidate s = Some jsonStr" and ne: "jsonStr \<noteq> []"
  shows "(starts_with (trim s) ''{'' \<or> starts_with (trim s) ''```'')
     \<and> (\<exists>pre post. strip_fence (trim s) = pre @ jsonStr @ post \<and> CHR ''{'' \<notin> set pre
           \<and> matched_braces jsonStr)"
proof -
  let ?cl = "strip_fence (trim s)"
  have j3: "starts_with x ''```json'' \<Longrightarrow> starts_with x ''```''" for x
    using starts_with_prefix[of x "''```''" "''json''"] by simp
  from c have g: "starts_with (trim s) ''{'' \<or> starts_with (trim s) ''```''"
    using j3[of "trim s"] by (auto simp: json_candidate_def Let_def split: if_splits)
  from c obtain n where n: "index_of (CHR ''{'') ?cl = Some n"
    by (auto simp: json_candidate_def Let_def split: if_splits option.splits)
  from index_of_SomeD[OF n] have nn: "n < length ?cl" "?cl ! n = CHR ''{''"
      "CHR ''{'' \<notin> set (take n ?cl)"
    by simp_all
  have dr: "drop n ?cl = CHR ''{'' # drop (Suc n) ?cl"
    using Cons_nth_drop_Suc[of n ?cl] nn(1,2) by simp
  from c n g have js: "jsonStr = take ((case find_end 0 n (drop n ?cl) of None \<Rightarrow> n | Some e \<Rightarrow> e) - n)
                            (drop n ?cl)"
    using j3[of "trim s"] by (auto simp: json_candidate_def Let_def split: if_splits)
  with ne obtain e where e: "find_end 0 n (drop n ?cl) = Some e"
    by (cases "find_end 0 n (drop n ?cl)") auto
  then have "find_end 1 (n + 1) (drop (Suc n) ?cl) = Some e" by (simp add: dr)
  from find_end_SomeD[OF this]
  obtain j' post where j: "drop (Suc n) ?cl = j' @ post" "j' \<noteq> []" "e = n + 1 + length j'"
      "1 + bal j' = 0" "\<forall>k. 0 < k \<and> k < length j' \<longrightarrow> 1 + bal (take k j') \<noteq> 0"
    by auto
  from js e j(1,3) dr have jsv: "jsonStr = CHR ''{'' # j'" by simp
  with j(4,5) have mb: "matched_braces jsonStr" unfolding matched_braces_iff by blast
  have "?cl = take n ?cl @ drop n ?cl" by simp
  with dr j(1) jsv have "?cl = take n ?cl @ jsonStr @ post" by simp
  with nn(3) mb g show ?thesis by blast
qed

lemma strip_fence_fenced: "strip_fence (''```json'' @ body @ ''```'') = trim body"
  by (simp add: strip_fence_def starts_with_def ends_with_def)

lemma strip_fence_plain:
  assumes "\<not> starts_with t ''```''" and "\<not> ends_with t ''```''"
  shows "strip_fence t = trim t"
proof -
  have "\<not> starts_with t ''```json''"
    using starts_with_prefix[of t "''```''" "''json''"] assms(1) by auto
  with assms show ?thesis by (simp add: strip_fence_def)
qed

lemma span_examples:
  \<open>trim (''```json'' @ [LF] @ ''{"document_summary":"hi"}'' @ [LF] @ ''```'')
     = ''```json'' @ [LF] @ ''{"document_summary":"hi"}'' @ [LF] @ ''```''\<close>
  \<open>strip_fence (''```json'' @ [LF] @ ''{"document_summary":"hi"}'' @ [LF] @ ''```'')
     = ''{"document_summary":"hi"}''\<close>
  \<open>matched_braces ''{"document_summary":"hi"}''\<close>
  \<open>\<not> starts_with (trim ''x {"document_summary":"hi"}'') ''{''\<close>
  \<open>\<not> starts_with (trim ''x {"document_summary":"hi"}'') ''```''\<close>
  \<open>\<not> starts_with ''{"a":1}'' ''```''\<close>
  \<open>\<not> ends_with ''{"a":1}'' ''```''\<close>
  \<open>trim ''{"a":1}'' = ''{"a":1}''\<close>
  by code_simp+

lemma starts_with_body:
  assumes "starts_with (body @ t) q" and "set q \<inter> set t = {}"
  shows "starts_with body q"
proof (cases "length q \<le> length body")
  case True
  with assms(1) show ?thesis by (simp add: starts_with_def)
next
  case False
  from assms(1) False have q: "body @ take (length q - length body) t = q"
    by (simp add: starts_with_def)
  show ?thesis
  proof (cases t)
    case Nil
    with q False show ?thesis by auto
  next
    case (Cons a t')
    with False obtain m where "length q - length body = Suc m" by (cases "length q - length body") auto
    with q Cons have "a \<in> set q" by auto
    with assms(2) Cons show ?thesis by auto
  qed
qed

lemma strip_fence_bare:
  assumes "\<not> starts_with body ''json''"
  shows "strip_fence (''```'' @ body @ ''```'') = trim body"
proof -
  have "\<not> starts_with (body @ ''```'') ''json''"
    using starts_with_body[of body "''```''" "''json''"] assms by auto
  then have "\<not> starts_with (''```'' @ body @ ''```'') (''```'' @ ''json'')"
    unfolding starts_with_def by simp
  then show ?thesis by (simp add: strip_fence_def starts_with_def ends_with_def)
qed

lemma more_examples:
  \<open>starts_with (trim '' {"document_summary":"hi"} and more'') ''{''\<close>
  \<open>strip_fence (trim '' {"document_summary":"hi"} and more'') = ''{"document_summary":"hi"} and more''\<close>
  \<open>\<not> starts_with ([LF] @ ''{"a":1}'') ''json''\<close>
  \<open>trim ([LF] @ ''{"a":1}'') = ''{"a":1}''\<close>
  by code_simp+

text \<open>
  C9, amended. \<open>_extractSummaryText\<close> never throws. It looks for an object only when the
  trimmed input starts with \<open>{\<close> or with a fence of three backquotes; any other input comes
  back unchanged, even if an object follows later in it. In the first case the fence is
  stripped (a fenced body comes out trimmed; a text without fence is only trimmed), and if
  what is left is some text without \<open>{\<close>, then a text \<open>j\<close> that starts with \<open>{\<close> and ends at the
  first \<open>}\<close> where the braces balance, then anything, and if \<open>JSON.parse\<close> makes of \<open>j\<close> an
  object whose \<open>document_summary\<close> is truthy, that value is returned. Conversely, given that
  \<open>JSON.parse\<close> throws on the empty text (what the loop leaves when the braces never
  balance), the result is the input unchanged in every other case: no \<open>{\<close>, braces that never
  balance, a parse error, a value that is no object, the field absent or falsy. The fenced
  \<open>{"document_summary":"hi"}\<close> gives \<open>hi\<close>, and plain text gives itself.
\<close>

theorem extractSummaryText_unwrap:
  \<open>(\<exists>r. extractSummaryText json_parse s = Inr r)
   \<and> (\<not> starts_with (trim s) ''{'' \<and> \<not> starts_with (trim s) ''```'' \<longrightarrow>
        extractSummaryText json_parse s = Inr (JStr s))
   \<and> ((starts_with (trim s) ''{'' \<or> starts_with (trim s) ''```'')
        \<and> strip_fence (trim s) = pre @ j @ post \<and> CHR ''{'' \<notin> set pre \<and> matched_braces j
        \<and> json_parse j = Some (JObj ps) \<and> map_of ps ''document_summary'' = Some v \<and> truthy v
        \<longrightarrow> extractSummaryText json_parse s = Inr v)
   \<and> (json_parse [] = None \<longrightarrow>
        extractSummaryText json_parse s = Inr (JStr s)
        \<or> ((starts_with (trim s) ''{'' \<or> starts_with (trim s) ''```'')
            \<and> (\<exists>pre' j' post' ps' v'.
                  strip_fence (trim s) = pre' @ j' @ post' \<and> CHR ''{'' \<notin> set pre'
                  \<and> matched_braces j' \<and> json_parse j' = Some (JObj ps')
                  \<and> map_of ps' ''document_summary'' = Some v' \<and> truthy v'
                  \<and> extractSummaryText json_parse s = Inr v')))
   \<and> strip_fence (''```json'' @ body @ ''```'') = trim body
   \<and> (\<not> starts_with body ''json'' \<longrightarrow> strip_fence (''```'' @ body @ ''```'') = trim body)
   \<and> (\<not> starts_with t ''```'' \<and> \<not> ends_with t ''```'' \<longrightarrow> strip_fence t = trim t)
   \<and> (json_parse ''{"document_summary":"hi"}'' = Some (JObj [(''document_summary'', JStr ''hi'')])
        \<longrightarrow> extractSummaryText json_parse
              (''```json'' @ [LF] @ ''{"document_summary":"hi"}'' @ [LF] @ ''```'')
            = Inr (JStr ''hi''))
   \<and> extractSummaryText json_parse ''plain text'' = Inr (JStr ''plain text'')\<close>
proof -
  let ?guard = "starts_with (trim s) ''{'' \<or> starts_with (trim s) ''```''"
  have a: "\<exists>r. extractSummaryText json_parse s = Inr r"
    by (simp add: extract_cases split: option.splits jsval.splits)
  have b: "\<not> starts_with (trim s) ''{'' \<and> \<not> starts_with (trim s) ''```'' \<longrightarrow>
        extractSummaryText json_parse s = Inr (JStr s)"
  proof
    assume g: "\<not> starts_with (trim s) ''{'' \<and> \<not> starts_with (trim s) ''```''"
    then have "\<not> starts_with (trim s) ''```json''"
      using starts_with_prefix[of "trim s" "''```''" "''json''"] by auto
    with g have "json_candidate s = None" by (simp add: json_candidate_def)
    then show "extractSummaryText json_parse s = Inr (JStr s)" by (simp add: extract_cases)
  qed
  have c: "?guard \<and> strip_fence (trim s) = pre @ j @ post \<and> CHR ''{'' \<notin> set pre \<and> matched_braces j
        \<and> json_parse j = Some (JObj ps) \<and> map_of ps ''document_summary'' = Some v \<and> truthy v
        \<longrightarrow> extractSummaryText json_parse s = Inr v"
  proof
    assume h: "?guard \<and> strip_fence (trim s) = pre @ j @ post \<and> CHR ''{'' \<notin> set pre
        \<and> matched_braces j
        \<and> json_parse j = Some (JObj ps) \<and> map_of ps ''document_summary'' = Some v \<and> truthy v"
    then have "json_candidate s = Some j" using json_candidate_span[of s pre j post] by blast
    with h show "extractSummaryText json_parse s = Inr v" by (simp add: extract_cases)
  qed
  have d: "json_parse [] = None \<longrightarrow>
        extractSummaryText json_parse s = Inr (JStr s)
        \<or> (?guard
            \<and> (\<exists>pre' j' post' ps' v'.
                  strip_fence (trim s) = pre' @ j' @ post' \<and> CHR ''{'' \<notin> set pre'
                  \<and> matched_braces j' \<and> json_parse j' = Some (JObj ps')
                  \<and> map_of ps' ''document_summary'' = Some v' \<and> truthy v'
                  \<and> extractSummaryText json_parse s = Inr v'))"
  proof (intro impI)
    assume e: "json_parse [] = None"
    show "extractSummaryText json_parse s = Inr (JStr s)
        \<or> (?guard
            \<and> (\<exists>pre' j' post' ps' v'.
                  strip_fence (trim s) = pre' @ j' @ post' \<and> CHR ''{'' \<notin> set pre'
                  \<and> matched_braces j' \<and> json_parse j' = Some (JObj ps')
                  \<and> map_of ps' ''document_summary'' = Some v' \<and> truthy v'
                  \<and> extractSummaryText json_parse s = Inr v'))"
    proof (cases "extractSummaryText json_parse s = Inr (JStr s)")
      case True
      then show ?thesis by simp
    next
      case False
      then obtain j' ps' v' where f: "json_candidate s = Some j'" "json_parse j' = Some (JObj ps')"
          "map_of ps' ''document_summary'' = Some v'" "truthy v'"
          "extractSummaryText json_parse s = Inr v'"
        by (auto simp add: extract_cases split: option.splits jsval.splits if_splits)
      from f(2) e have "j' \<noteq> []" by auto
      from json_candidate_SomeD[OF f(1) this] f show ?thesis by blast
    qed
  qed
  have e: "strip_fence (''```json'' @ body @ ''```'') = trim body"
    by (rule strip_fence_fenced)
  have e': "\<not> starts_with body ''json'' \<longrightarrow> strip_fence (''```'' @ body @ ''```'') = trim body"
    using strip_fence_bare by blast
  have f: "\<not> starts_with t ''```'' \<and> \<not> ends_with t ''```'' \<longrightarrow> strip_fence t = trim t"
    using strip_fence_plain by blast
  have g: \<open>json_parse ''{"document_summary":"hi"}'' = Some (JObj [(''document_summary'', JStr ''hi'')])
        \<longrightarrow> extractSummaryText json_parse
              (''```json'' @ [LF] @ ''{"document_summary":"hi"}'' @ [LF] @ ''```'')
            = Inr (JStr ''hi'')\<close>
    using candidate_examples(1) by (simp add: extract_cases)
  have h: "extractSummaryText json_parse ''plain text'' = Inr (JStr ''plain text'')"
    using candidate_examples(4) by (simp add: extract_cases)
  from a b c d e e' f g h show ?thesis by (intro conjI)
qed

theorem extractSummaryText_unwrap_witness:
  \<open>extractSummaryText json_parse_sample
      (''```json'' @ [LF] @ ''{"document_summary":"hi"}'' @ [LF] @ ''```'') = Inr (JStr ''hi'')
   \<and> extractSummaryText json_parse_sample '' {"document_summary":"hi"} and more'' = Inr (JStr ''hi'')
   \<and> extractSummaryText json_parse_sample ''x {"document_summary":"hi"}''
       = Inr (JStr ''x {"document_summary":"hi"}'')
   \<and> strip_fence ''{"a":1}'' = ''{"a":1}''
   \<and> strip_fence (''```'' @ [LF] @ ''{"a":1}'' @ ''```'') = ''{"a":1}''
   \<and> (extractSummaryText json_parse_sample ''{"document_summary":"a { b"}''
         = Inr (JStr ''{"document_summary":"a { b"}'')
       \<or> (\<exists>pre' j' post'. strip_fence (trim ''{"document_summary":"a { b"}'') = pre' @ j' @ post'
             \<and> matched_braces j'))\<close>
proof -
  note t = extractSummaryText_unwrap
    [where json_parse = json_parse_sample
       and s = \<open>'' {"document_summary":"hi"} and more''\<close>
       and pre = "[]" and j = \<open>''{"document_summary":"hi"}''\<close> and post = \<open>'' and more''\<close>
       and ps = "[(''document_summary'', JStr ''hi'')]" and v = "JStr ''hi''"
       and t = \<open>''{"a":1}''\<close> and body = \<open>[LF] @ ''{"a":1}''\<close>]
  note u = extractSummaryText_unwrap
    [where json_parse = json_parse_sample and s = \<open>''x {"document_summary":"hi"}''\<close>]
  note w = extractSummaryText_unwrap
    [where json_parse = json_parse_sample and s = \<open>''{"document_summary":"a { b"}''\<close>]
  have a: \<open>extractSummaryText json_parse_sample
      (''```json'' @ [LF] @ ''{"document_summary":"hi"}'' @ [LF] @ ''```'') = Inr (JStr ''hi'')\<close>
    using t[THEN conjunct2, THEN conjunct2, THEN conjunct2, THEN conjunct2, THEN conjunct2,
            THEN conjunct2, THEN conjunct2, THEN conjunct1]
    by (simp add: json_parse_sample_def)
  have a': \<open>extractSummaryText json_parse_sample '' {"document_summary":"hi"} and more''
       = Inr (JStr ''hi'')\<close>
    using t[THEN conjunct2, THEN conjunct2, THEN conjunct1] span_examples(3) more_examples(1,2)
    by (simp add: json_parse_sample_def)
  have b: \<open>extractSummaryText json_parse_sample ''x {"document_summary":"hi"}''
       = Inr (JStr ''x {"document_summary":"hi"}'')\<close>
    using u[THEN conjunct2, THEN conjunct1] span_examples(4,5) by simp
  have c: \<open>strip_fence ''{"a":1}'' = ''{"a":1}''\<close>
    using t[THEN conjunct2, THEN conjunct2, THEN conjunct2, THEN conjunct2, THEN conjunct2,
            THEN conjunct2, THEN conjunct1] span_examples(6,7,8)
    by simp
  have c': \<open>strip_fence (''```'' @ [LF] @ ''{"a":1}'' @ ''```'') = ''{"a":1}''\<close>
    using t[THEN conjunct2, THEN conjunct2, THEN conjunct2, THEN conjunct2, THEN conjunct2,
            THEN conjunct1] more_examples(3,4)
    by simp
  have d: \<open>extractSummaryText json_parse_sample ''{"document_summary":"a { b"}''
         = Inr (JStr ''{"document_summary":"a { b"}'')
       \<or> (\<exists>pre' j' post'. strip_fence (trim ''{"document_summary":"a { b"}'') = pre' @ j' @ post'
             \<and> matched_braces j')\<close>
    using w[THEN conjunct2, THEN conjunct2, THEN conjunct2, THEN conjunct1]
    by (auto simp add: json_parse_sample_def)
  from a a' b c c' d show ?thesis by (intro conjI)
qed

text \<open>
  An input that contains the object after other text comes back unchanged, since it does
  not start with a brace or a fence. The field is returned only when it is truthy, and the
  braces are counted without regard to string literals: an object whose \<open>document_summary\<close>
  is the empty string, and one whose \<open>document_summary\<close> holds a lone closing brace, both
  come back as the input itself.
\<close>

theorem extractSummaryText_counterexample:
  \<open>extractSummaryText json_parse_sample ''x {"document_summary":"hi"}''
     = Inr (JStr ''x {"document_summary":"hi"}'')
   \<and> json_parse_sample ''{"document_summary":"hi"}'' = Some (JObj [(''document_summary'', JStr ''hi'')])
   \<and> extractSummaryText json_parse_sample ''{"document_summary":""}''
     = Inr (JStr ''{"document_summary":""}'')
   \<and> json_parse_sample ''{"document_summary":""}'' = Some (JObj [(''document_summary'', JStr [])])
   \<and> extractSummaryText json_parse_sample ''{"document_summary":"a } b"}''
     = Inr (JStr ''{"document_summary":"a } b"}'')\<close>
proof -
  have \<open>json_candidate ''x {"document_summary":"hi"}'' = None\<close> by code_simp
  then show ?thesis
    using candidate_examples by (simp add: extract_cases json_parse_sample_def)
qed


section \<open>The renderer: enough steps give the result\<close>

lemma enough_Suc:
  "eventually (\<lambda>n. P (Suc n)) sequentially \<Longrightarrow> eventually P sequentially"
  by (simp add: eventually_sequentially_Suc)

lemma enough_now: "(\<And>n. f (Suc n) = y) \<Longrightarrow> eventually (\<lambda>n. f n = y) sequentially"
  by (rule enough_Suc) simp

lemma rmatch_fuel_enough:
  "eventually (\<lambda>n. rmatch_fuel n r prev s opens caps = Some (rmatch r prev s opens caps)) sequentially"
proof (induction r prev s opens caps rule: rmatch.induct)
  case (1 prev s opens caps)
  show ?case by (rule enough_Suc) simp
next
  case (2 r prev s opens caps)
  show ?case
  proof (cases "prev = None")
    case True
    from 2[OF True] show ?thesis using True
      by - (rule enough_Suc, erule eventually_mono, simp)
  next
    case False
    then show ?thesis by - (rule enough_now, auto)
  qed
next
  case (3 r prev s opens caps)
  show ?case
  proof (cases "s = []")
    case True
    from 3[OF True] show ?thesis using True
      by - (rule enough_Suc, erule eventually_mono, simp)
  next
    case False
    then show ?thesis by - (rule enough_now, auto)
  qed
next
  case (4 r prev s opens caps)
  show ?case
  proof (cases "case prev of None \<Rightarrow> True | Some p \<Rightarrow> is_line_terminator p")
    case True
    from 4[OF True] show ?thesis using True
      by - (rule enough_Suc, erule eventually_mono, simp)
  next
    case False
    then show ?thesis by - (rule enough_now, auto)
  qed
next
  case (5 r prev s opens caps)
  show ?case
  proof (cases "case s of [] \<Rightarrow> True | c # _ \<Rightarrow> is_line_terminator c")
    case True
    from 5[OF True] show ?thesis using True
      by - (rule enough_Suc, erule eventually_mono, simp)
  next
    case False
    then show ?thesis by - (rule enough_now, auto)
  qed
next
  case (6 r prev s opens caps)
  show ?case using 6 by - (rule enough_Suc, simp)
next
  case (7 r prev s opens caps)
  show ?case
  proof (cases opens)
    case Nil
    then show ?thesis by - (rule enough_Suc, simp)
  next
    case (Cons s0 os)
    with 7[OF Cons] show ?thesis by - (rule enough_Suc, simp)
  qed
next
  case (8 p r prev opens caps)
  show ?case by (rule enough_Suc) simp
next
  case (9 p r prev c cs opens caps)
  show ?case
  proof (cases "p c")
    case True
    from 9[OF True] show ?thesis using True
      by - (rule enough_Suc, erule eventually_mono, simp)
  next
    case False
    then show ?thesis by - (rule enough_now, auto)
  qed
next
  case (10 p r prev opens caps)
  then show ?case by - (rule enough_Suc, simp)
next
  case (11 p r prev c cs opens caps)
  show ?case
  proof (cases "p c")
    case False
    with 11(3)[OF False] show ?thesis by - (rule enough_Suc, simp)
  next
    case True
    show ?thesis
    proof (cases "rmatch (Star p # r) (Some c) cs opens caps")
      case None
      from 11(1)[OF True] 11(2)[OF True None] have
        "eventually (\<lambda>n. rmatch_fuel n (Star p # r) (Some c) cs opens caps = Some None
            \<and> rmatch_fuel n r prev (c # cs) opens caps = Some (rmatch r prev (c # cs) opens caps))
          sequentially"
        using None by (simp add: eventually_conj)
      then show ?thesis using True None
        by - (rule enough_Suc, erule eventually_mono, simp)
    next
      case (Some m)
      from 11(1)[OF True] show ?thesis using True Some
        by - (rule enough_Suc, erule eventually_mono, simp)
    qed
  qed
next
  case (12 p r prev opens caps)
  show ?case by (rule enough_Suc) simp
next
  case (13 p r prev c cs opens caps)
  show ?case
  proof (cases "p c")
    case True
    from 13[OF True] show ?thesis using True
      by - (rule enough_Suc, erule eventually_mono, simp)
  next
    case False
    then show ?thesis by - (rule enough_now, auto)
  qed
next
  case (14 p r prev opens caps)
  show ?case by (rule enough_Suc) simp
next
  case (15 p r prev c cs opens caps)
  show ?case
  proof (cases "p c")
    case True
    from 15[OF True] show ?thesis using True
      by - (rule enough_Suc, erule eventually_mono, simp)
  next
    case False
    then show ?thesis by - (rule enough_now, auto)
  qed
next
  case (16 p r prev opens caps)
  then show ?case by - (rule enough_Suc, simp)
next
  case (17 p r prev c cs opens caps)
  show ?case
  proof (cases "rmatch r prev (c # cs) opens caps")
    case (Some m)
    from 17(1) show ?thesis using Some
      by - (rule enough_Suc, erule eventually_mono, simp)
  next
    case None
    show ?thesis
    proof (cases "p c")
      case False
      from 17(1) show ?thesis using None False
        by - (rule enough_Suc, erule eventually_mono, simp)
    next
      case True
      from 17(1) 17(2)[OF None True] have
        "eventually (\<lambda>n. rmatch_fuel n r prev (c # cs) opens caps = Some None
            \<and> rmatch_fuel n (StarLazy p # r) (Some c) cs opens caps
                = Some (rmatch (StarLazy p # r) (Some c) cs opens caps))
          sequentially"
        using None by (simp add: eventually_conj)
      then show ?thesis using True None
        by - (rule enough_Suc, erule eventually_mono, simp)
    qed
  qed
qed

lemma re_scan_fuel_enough:
  "eventually (\<lambda>n. re_scan_fuel n r prev s = Some (re_scan r prev s)) sequentially"
proof (induction r prev s rule: re_scan.induct)
  case (1 r prev s)
  have m: "eventually (\<lambda>n. rmatch_fuel n r prev s [] [] = Some (rmatch r prev s [] [])) sequentially"
    by (rule rmatch_fuel_enough)
  show ?case
  proof (cases "rmatch r prev s [] []")
    case None
    show ?thesis
    proof (cases s)
      case Nil
      from m show ?thesis using None Nil
        by - (rule enough_Suc, erule eventually_mono, simp add: re_scan.simps)
    next
      case (Cons c cs)
      from 1(1)[OF None Cons]
      have ih: "eventually (\<lambda>n. re_scan_fuel n r (Some c) cs = Some (re_scan r (Some c) cs)) sequentially" .
      from eventually_conj[OF m ih] show ?thesis using None Cons
        by - (rule enough_Suc, erule eventually_mono, simp add: re_scan.simps[of r prev "c # cs"])
    qed
  next
    case (Some res)
    then obtain caps prev' rest where res: "res = (caps, prev', rest)" by (cases res) auto
    show ?thesis
    proof (cases "length rest < length s")
      case True
      from 1(2)[OF Some, of caps "(prev', rest)" prev' rest] res True
      have ih: "eventually (\<lambda>n. re_scan_fuel n r prev' rest = Some (re_scan r prev' rest)) sequentially"
        by simp
      from eventually_conj[OF m ih] show ?thesis using Some res True
        by - (rule enough_Suc, erule eventually_mono, simp add: re_scan.simps[of r prev s])
    next
      case False
      show ?thesis
      proof (cases s)
        case Nil
        from m show ?thesis using Some res False Nil
          by - (rule enough_Suc, erule eventually_mono, simp add: re_scan.simps)
      next
        case (Cons c cs)
        from 1(3)[OF Some, of caps "(prev', rest)" prev' rest c cs] res False Cons
        have ih: "eventually (\<lambda>n. re_scan_fuel n r (Some c) cs = Some (re_scan r (Some c) cs)) sequentially"
          by simp
        from eventually_conj[OF m ih] show ?thesis using Some res False Cons
          by - (rule enough_Suc, erule eventually_mono, simp add: re_scan.simps[of r prev "c # cs"])
      qed
    qed
  qed
qed

lemma replace_all_fuel_enough:
  "eventually (\<lambda>n. replace_all_fuel n r f s = Some (replace_all r f s)) sequentially"
  using re_scan_fuel_enough[of r None s]
  by (rule eventually_mono) (simp add: replace_all_fuel_def replace_all_def)

lemma headers_html_fuel_enough:
  "eventually (\<lambda>n. headers_html_fuel n html = Some (headers_html html)) sequentially"
proof -
  let ?f4 = "\<lambda>caps. ''<h4>'' @ grp caps 1 @ ''</h4>''"
  let ?f3 = "\<lambda>caps. ''<h3>'' @ grp caps 1 @ ''</h3>''"
  let ?f2 = "\<lambda>caps. ''<h2>'' @ grp caps 1 @ ''</h2>''"
  let ?f1 = "\<lambda>caps. ''<h1>'' @ grp caps 1 @ ''</h1>''"
  let ?h4 = "replace_all (header_re 4) ?f4 html"
  let ?h3 = "replace_all (header_re 3) ?f3 ?h4"
  let ?h2 = "replace_all (header_re 2) ?f2 ?h3"
  from replace_all_fuel_enough[of "header_re 4" ?f4 html]
       replace_all_fuel_enough[of "header_re 3" ?f3 ?h4]
       replace_all_fuel_enough[of "header_re 2" ?f2 ?h3]
       replace_all_fuel_enough[of "header_re 1" ?f1 ?h2]
  show ?thesis
    by eventually_elim (simp add: headers_html_fuel_def headers_html_def)
qed

lemma bold_html_fuel_enough:
  "eventually (\<lambda>n. bold_html_fuel n s = Some (bold_html s)) sequentially"
  unfolding bold_html_fuel_def bold_html_def by (rule replace_all_fuel_enough)

lemma italic_html_fuel_enough:
  "eventually (\<lambda>n. italic_html_fuel n s = Some (italic_html s)) sequentially"
  unfolding italic_html_fuel_def italic_html_def by (rule replace_all_fuel_enough)

lemma link_html_fuel_enough:
  "eventually (\<lambda>n. link_html_fuel n s = Some (link_html s)) sequentially"
  unfolding link_html_fuel_def link_html_def by (rule replace_all_fuel_enough)

lemma processInlineFormatting_fuel_enough:
  "eventually (\<lambda>n. processInlineFormatting_fuel n s = Some (processInlineFormatting s)) sequentially"
  using bold_html_fuel_enough[of s] italic_html_fuel_enough[of "bold_html s"]
    link_html_fuel_enough[of "italic_html (bold_html s)"]
  by eventually_elim (simp add: processInlineFormatting_fuel_def processInlineFormatting_def)

lemma extract_items_fuel_enough:
  "eventually (\<lambda>n. extract_items_fuel n ty ps start = Some (extract_items ty ps start)) sequentially"
proof (induction ps arbitrary: start)
  case Nil
  show ?case by (simp add: extract_items_fuel_def extract_items_def)
next
  case (Cons p ps)
  obtain out listPlaceholders where start: "start = (out, listPlaceholders)" by (cases start)
  show ?case
  proof (cases p)
    case (Copy c)
    from Cons[of "(out @ [c], listPlaceholders)"] show ?thesis
      by (rule eventually_mono)
         (simp add: extract_items_fuel_def extract_items_def extract_item_fuel_def start Copy)
  next
    case (Match caps)
    let ?next = "(out @ grp caps 1 @ placeholder_token (length listPlaceholders),
                  listPlaceholders @
                    [\<lparr>ptype = ty, content = processInlineFormatting (grp caps 3), indent = grp caps 1,
                      number = (if ty = OL then Some (grp caps 2) else None)\<rparr>])"
    from processInlineFormatting_fuel_enough[of "grp caps 3"] Cons[of ?next] show ?thesis
      by eventually_elim
         (simp add: extract_items_fuel_def extract_items_def extract_item_fuel_def start Match Let_def)
  qed
qed

lemma extract_lists_fuel_enough:
  "eventually (\<lambda>n. extract_lists_fuel n html = Some (extract_lists html)) sequentially"
proof -
  obtain html1 items1 where one: "extract_items UL (re_scan ul_re None html) ([], []) = (html1, items1)"
    by (cases "extract_items UL (re_scan ul_re None html) ([], [])")
  from re_scan_fuel_enough[of ul_re None html]
       extract_items_fuel_enough[of UL "re_scan ul_re None html" "([], [])"]
       re_scan_fuel_enough[of ol_re None html1]
       extract_items_fuel_enough[of OL "re_scan ol_re None html1" "([], items1)"]
  show ?thesis
    by eventually_elim (simp add: extract_lists_fuel_def extract_lists_def one)
qed

lemma placeholder_match_fuel_enough:
  "eventually (\<lambda>n. placeholder_match_fuel n line = Some (placeholder_match line)) sequentially"
  using rmatch_fuel_enough[of placeholder_re None line "[]" "[]"]
  by (rule eventually_mono)
     (simp add: placeholder_match_fuel_def placeholder_match_def split: option.splits prod.splits)

lemma restore_lists_fuel_enough:
  "eventually (\<lambda>n. restore_lists_fuel n lp inUL inOL lines = Some (restore_lists lp inUL inOL lines))
     sequentially"
proof (induction lines arbitrary: inUL inOL)
  case Nil
  show ?case by (simp add: restore_lists_fuel.simps restore_lists.simps)
next
  case (Cons line lines)
  from placeholder_match_fuel_enough[of line] Cons[of inUL inOL] Cons[of True False]
       Cons[of False True] Cons[of False False]
  show ?case
    by eventually_elim
       (auto simp add: restore_lists_fuel.simps restore_lists.simps
             split: option.splits list_type.splits)
qed

lemma split_blank_fuel_enough:
  "eventually (\<lambda>n. split_blank_fuel n piece prev s = Some (split_blank piece prev s)) sequentially"
proof (induction piece prev s rule: split_blank.induct)
  case (1 piece prev s)
  show ?case
  proof (cases s)
    case Nil
    then show ?thesis by - (rule enough_now, simp add: split_blank.simps)
  next
    case (Cons c cs)
    have m: "eventually (\<lambda>n. rmatch_fuel n blank_re prev s [] [] = Some (rmatch blank_re prev s [] []))
               sequentially"
      by (rule rmatch_fuel_enough)
    show ?thesis
    proof (cases "rmatch blank_re prev s [] []")
      case None
      from 1(1)[OF Cons None]
      have ih: "eventually (\<lambda>n. split_blank_fuel n (piece @ [c]) (Some c) cs
                  = Some (split_blank (piece @ [c]) (Some c) cs)) sequentially" .
      from eventually_conj[OF m ih] show ?thesis using None Cons
        by - (rule enough_Suc, erule eventually_mono,
              simp add: split_blank.simps[of piece prev "c # cs"])
    next
      case (Some res)
      then obtain caps prev' rest where res: "res = (caps, prev', rest)" by (cases res) auto
      show ?thesis
      proof (cases "length rest < length s")
        case True
        from 1(2)[OF Cons Some, of caps "(prev', rest)" prev' rest] res True
        have ih: "eventually (\<lambda>n. split_blank_fuel n [] prev' rest
                    = Some (split_blank [] prev' rest)) sequentially"
          by simp
        from eventually_conj[OF m ih] show ?thesis using Some res True Cons
          by - (rule enough_Suc, erule eventually_mono,
                simp add: split_blank.simps[of piece prev "c # cs"])
      next
        case False
        from 1(3)[OF Cons Some, of caps "(prev', rest)" prev' rest] res False
        have ih: "eventually (\<lambda>n. split_blank_fuel n (piece @ [c]) (Some c) cs
                    = Some (split_blank (piece @ [c]) (Some c) cs)) sequentially"
          by simp
        from eventually_conj[OF m ih] show ?thesis using Some res False Cons
          by - (rule enough_Suc, erule eventually_mono,
                simp add: split_blank.simps[of piece prev "c # cs"])
      qed
    qed
  qed
qed

lemma parseMarkdown_fuel_enough:
  "eventually (\<lambda>n. parseMarkdown_fuel n s = Some (parseMarkdown s)) sequentially"
proof (cases "s = []")
  case True
  then show ?thesis by (simp add: parseMarkdown_fuel_def parseMarkdown_def)
next
  case False
  let ?h = "headers_html (escape_html s)"
  obtain html1 lp where ex: "extract_lists ?h = (html1, lp)" by (cases "extract_lists ?h")
  let ?b = "bold_html html1"
  let ?i = "italic_html ?b"
  let ?l = "link_html ?i"
  let ?lines = "restore_lists lp False False (split_on LF ?l)"
  from headers_html_fuel_enough[of "escape_html s"] extract_lists_fuel_enough[of ?h]
       bold_html_fuel_enough[of html1] italic_html_fuel_enough[of ?b] link_html_fuel_enough[of ?i]
       restore_lists_fuel_enough[of lp False False "split_on LF ?l"]
       split_blank_fuel_enough[of "[]" None "join [LF] ?lines"]
  show ?thesis
    by eventually_elim (simp add: parseMarkdown_fuel_def parseMarkdown_def False ex)
qed

lemma parseMarkdown_returns:
  "\<exists>N. \<forall>n\<ge>N. parseMarkdown_fuel n s = Some (parseMarkdown s)"
  using parseMarkdown_fuel_enough[of s] by (simp add: eventually_sequentially)


section \<open>The renderer: the claims\<close>

text \<open>Step 1 leaves no angle bracket of the input in the text.\<close>

lemma replace_char_removes: "c \<notin> set rep \<Longrightarrow> c \<notin> set (replace_char c rep s)"
  by (induction s) (auto simp: replace_char_def)

lemma replace_char_keeps_out:
  "d \<notin> set rep \<Longrightarrow> d \<notin> set s \<Longrightarrow> d \<notin> set (replace_char c rep s)"
  by (induction s) (auto simp: replace_char_def)

lemma escape_html_no_angle:
  "CHR ''<'' \<notin> set (escape_html s) \<and> CHR ''>'' \<notin> set (escape_html s)"
proof
  have lt: "CHR ''<'' \<notin> set (replace_char (CHR ''<'') ''&lt;'' (replace_char (CHR ''&'') ''&amp;'' s))"
    by (rule replace_char_removes) simp
  show "CHR ''<'' \<notin> set (escape_html s)"
    unfolding escape_html_def by (rule replace_char_keeps_out[OF _ lt]) simp
  show "CHR ''>'' \<notin> set (escape_html s)"
    unfolding escape_html_def by (rule replace_char_removes) simp
qed

text \<open>
  C1. The escaping of step 1 leaves the double quote alone, and the link pattern copies
  the text between the parentheses into the \<open>href\<close> attribute: a quote in it ends the attribute
  and what follows becomes further attributes of the \<open><a>\<close> element, here an event handler.
\<close>

theorem parseMarkdown_attribute_injection:
  \<open>parseMarkdown ''[click](" onmouseover="alert`1`)''
   = ''<p><a href="" onmouseover="alert`1`" target="_blank" rel="noopener">click</a></p>''\<close>
  by code_simp

lemma parseMarkdown_script: \<open>parseMarkdown ''<script>alert(1)</script>''
   = ''<p>&lt;script&gt;alert(1)&lt;/script&gt;</p>''\<close>
  by code_simp

text \<open>
  The loop that restores the list items, on lines it reads as placeholders: a run of
  placeholder lines of one type (each a token, possibly indented, whose entry exists) that
  starts outside a list of that type gives one opening tag, the items in order, and leaves
  that list open; an open list of the other type is closed first. A line that is not a
  placeholder closes the open list before it is copied, and the end of the lines closes it
  too. So \<open>- a\<close>, \<open>- b\<close>, a blank line and \<open>c\<close> render as one \<open><ul>\<close> with the two items, then
  \<open><p>c</p>\<close>.
\<close>

theorem restore_lists_wraps_runs:
  "(items \<noteq> [] \<and> (\<forall>(ws, k)\<in>set items.
        (\<forall>c\<in>set ws. is_space c) \<and> k < length tbl \<and> ptype (tbl ! k) = UL) \<longrightarrow>
      restore_lists tbl False inOL (map (\<lambda>(ws, k). ws @ placeholder_token k) items @ rest) =
        (if inOL then [''</ol>''] else []) @ ''<ul>''
        # map (\<lambda>(ws, k). ''<li>'' @ content (tbl ! k) @ ''</li>'') items
        @ restore_lists tbl True False rest)
   \<and> (items \<noteq> [] \<and> (\<forall>(ws, k)\<in>set items.
        (\<forall>c\<in>set ws. is_space c) \<and> k < length tbl \<and> ptype (tbl ! k) = OL) \<longrightarrow>
      restore_lists tbl inUL False (map (\<lambda>(ws, k). ws @ placeholder_token k) items @ rest) =
        (if inUL then [''</ul>''] else []) @ ''<ol>''
        # map (\<lambda>(ws, k). ''<li>'' @ content (tbl ! k) @ ''</li>'') items
        @ restore_lists tbl False True rest)
   \<and> (placeholder_match line = None \<longrightarrow>
        restore_lists tbl inUL inOL (line # rest) =
          close_lists inUL inOL @ line # restore_lists tbl False False rest)
   \<and> restore_lists tbl inUL inOL [] = close_lists inUL inOL
   \<and> close_lists True False = [''</ul>''] \<and> close_lists False True = [''</ol>'']
   \<and> close_lists False False = []
   \<and> parseMarkdown (''- a'' @ [LF] @ ''- b'' @ [LF, LF] @ ''c'')
       = ''<ul>'' @ [LF] @ ''<li>a</li>'' @ [LF] @ ''<li>b</li>'' @ [LF] @ ''</ul>'' @ [LF] @ ''<p>c</p>''"
proof (intro conjI impI)
  assume "items \<noteq> [] \<and> (\<forall>(ws, k)\<in>set items.
        (\<forall>c\<in>set ws. is_space c) \<and> k < length tbl \<and> ptype (tbl ! k) = UL)"
  then show "restore_lists tbl False inOL (map (\<lambda>(ws, k). ws @ placeholder_token k) items @ rest) =
        (if inOL then [''</ol>''] else []) @ ''<ul>''
        # map (\<lambda>(ws, k). ''<li>'' @ content (tbl ! k) @ ''</li>'') items
        @ restore_lists tbl True False rest"
    using restore_ul_run by blast
next
  assume "items \<noteq> [] \<and> (\<forall>(ws, k)\<in>set items.
        (\<forall>c\<in>set ws. is_space c) \<and> k < length tbl \<and> ptype (tbl ! k) = OL)"
  then show "restore_lists tbl inUL False (map (\<lambda>(ws, k). ws @ placeholder_token k) items @ rest) =
        (if inUL then [''</ul>''] else []) @ ''<ol>''
        # map (\<lambda>(ws, k). ''<li>'' @ content (tbl ! k) @ ''</li>'') items
        @ restore_lists tbl False True rest"
    using restore_ol_run by blast
next
  assume "placeholder_match line = None"
  then show "restore_lists tbl inUL inOL (line # rest) =
          close_lists inUL inOL @ line # restore_lists tbl False False rest"
    by (simp add: restore_lists.simps)
next
  show "restore_lists tbl inUL inOL [] = close_lists inUL inOL" by (simp add: restore_lists.simps)
  show "close_lists True False = [''</ul>'']" "close_lists False True = [''</ol>'']"
    "close_lists False False = []"
    by (simp_all add: close_lists_def)
  show "parseMarkdown (''- a'' @ [LF] @ ''- b'' @ [LF, LF] @ ''c'')
       = ''<ul>'' @ [LF] @ ''<li>a</li>'' @ [LF] @ ''<li>b</li>'' @ [LF] @ ''</ul>'' @ [LF] @ ''<p>c</p>''"
    by code_simp
qed

lemma token_examples:
  "placeholder_token 0 = ''__LIST_ITEM_0__''" "placeholder_token 1 = ''__LIST_ITEM_1__''"
  "placeholder_token 2 = ''__LIST_ITEM_2__''" "placeholder_token (Suc 0) = ''__LIST_ITEM_1__''"
  by (simp_all add: placeholder_token_def show_nat.simps)

lemma plain_line_examples:
  "placeholder_match [] = None" "placeholder_match ''c'' = None"
  by code_simp+

theorem restore_lists_wraps_runs_witness:
  "restore_lists
     [\<lparr>ptype = UL, content = ''a'', indent = [], number = None\<rparr>,
      \<lparr>ptype = UL, content = ''b'', indent = [], number = None\<rparr>,
      \<lparr>ptype = OL, content = ''x'', indent = [], number = Some ''1''\<rparr>]
     False False
     [''__LIST_ITEM_0__'', ''  __LIST_ITEM_1__'', ''__LIST_ITEM_2__'', [], ''c'']
   = [''<ul>'', ''<li>a</li>'', ''<li>b</li>'', ''</ul>'', ''<ol>'', ''<li>x</li>'', ''</ol>'', [], ''c'']"
proof -
  let ?tbl = "[\<lparr>ptype = UL, content = ''a'', indent = [], number = None\<rparr>,
      \<lparr>ptype = UL, content = ''b'', indent = [], number = None\<rparr>,
      \<lparr>ptype = OL, content = ''x'', indent = [], number = Some ''1''\<rparr>]"
  have 1: "restore_lists ?tbl False False
        (map (\<lambda>(ws, k). ws @ placeholder_token k) [([], 0), (''  '', 1)] @ [''__LIST_ITEM_2__'', [], ''c''])
      = ''<ul>'' # map (\<lambda>(ws, k). ''<li>'' @ content (?tbl ! k) @ ''</li>'') [([], 0), (''  '', 1)]
        @ restore_lists ?tbl True False [''__LIST_ITEM_2__'', [], ''c'']"
    using restore_lists_wraps_runs[where items = "[([], 0), (''  '', 1)]" and tbl = ?tbl and inOL = False
        and rest = "[''__LIST_ITEM_2__'', [], ''c'']"]
    by (simp add: is_space_def)
  have 2: "restore_lists ?tbl True False
        (map (\<lambda>(ws, k). ws @ placeholder_token k) [([], 2)] @ [[], ''c''])
      = ''</ul>'' # ''<ol>'' # map (\<lambda>(ws, k). ''<li>'' @ content (?tbl ! k) @ ''</li>'') [([], 2)]
        @ restore_lists ?tbl False True [[], ''c'']"
    using restore_lists_wraps_runs[where items = "[([], 2)]" and tbl = ?tbl and inUL = True
        and rest = "[[], ''c'']"]
    by simp
  have 3: "restore_lists ?tbl False True [[], ''c''] = [''</ol>'', [], ''c'']"
    using restore_lists_wraps_runs[where tbl = ?tbl and line = "[]" and rest = "[''c'']"
          and inUL = False and inOL = True]
      restore_lists_wraps_runs[where tbl = ?tbl and line = "''c''" and rest = "[]"
          and inUL = False and inOL = False]
    by (simp add: plain_line_examples)
  from 1 2 3 show ?thesis by (simp add: token_examples)
qed

text \<open>
  C7. Two list-item lines separated by CR LF are not wrapped in one list. The list patterns
  have the \<open>m\<close> flag, under which \<open>$\<close> accepts a CR as the end of a line, so both items are
  extracted; the pattern of the restoring loop has no flag, its \<open>$\<close> accepts the end of the
  line only, and the line \<open>__LIST_ITEM_0__\<close> followed by CR is copied as text. The first item
  is lost and only the second is in the \<open><ul>\<close>.
\<close>

theorem parseMarkdown_crlf_list:
  "parseMarkdown (''- a'' @ [CR, LF] @ ''- b'')
   = ''<p>__LIST_ITEM_0__'' @ [CR] @ ''<br><ul><br><li>b</li><br></ul></p>''"
  by code_simp

lemma fuel_examples:
  "parseMarkdown ''# a'' = ''<h1>a</h1>''"
  "parseMarkdown_fuel 30 ''# a'' = Some ''<h1>a</h1>''"
  "parseMarkdown_fuel 5 ''# a'' = None"
  by code_simp+

lemma no_blank_line_example: "\<not> (\<exists>a b. [CHR '' '', LF, CHR 0x09, CR, LF] = a @ LF # LF # b)"
  by (auto simp: Cons_eq_append_conv LF_def CR_def)

lemma split_blank_example:
  "split_blank [] None [CHR '' '', LF, LF, LF, CHR 0x09, LF] = [[CHR '' ''], [CHR 0x09, LF]]"
  by code_simp

text \<open>
  C8, amended. For every text, \<open>_parseMarkdown\<close> returns: run with a bound on its steps it
  comes to its end for every bound that is large enough, with one and the same string, the
  value of \<^const>\<open>parseMarkdown\<close>. The empty text gives the empty text, under any bound. A
  text of white space only gives line feeds only, one fewer than the pieces that the split
  on blank lines finds; that is the empty text when no two line feeds are adjacent.
\<close>

theorem parseMarkdown_blank_input:
  "(\<exists>N. \<forall>n\<ge>N. parseMarkdown_fuel n s = Some (parseMarkdown s))
   \<and> parseMarkdown_fuel n [] = Some []
   \<and> parseMarkdown [] = []
   \<and> ((\<forall>c\<in>set s. is_space c) \<longrightarrow>
        parseMarkdown s = replicate (length (split_blank [] None s) - 1) LF)
   \<and> ((\<forall>c\<in>set s. is_space c) \<and> \<not> (\<exists>a b. s = a @ LF # LF # b) \<longrightarrow> parseMarkdown s = [])"
proof -
  have t: "\<exists>N. \<forall>n\<ge>N. parseMarkdown_fuel n s = Some (parseMarkdown s)"
    by (rule parseMarkdown_returns)
  have e: "parseMarkdown_fuel n [] = Some []" by (simp add: parseMarkdown_fuel_def)
  have a: "parseMarkdown [] = []" by (simp add: parseMarkdown_def)
  have b: "(\<forall>c\<in>set s. is_space c) \<longrightarrow>
        parseMarkdown s = replicate (length (split_blank [] None s) - 1) LF"
    using parseMarkdown_spaces by blast
  have c: "(\<forall>c\<in>set s. is_space c) \<and> \<not> (\<exists>a b. s = a @ LF # LF # b) \<longrightarrow> parseMarkdown s = []"
  proof
    assume a: "(\<forall>c\<in>set s. is_space c) \<and> \<not> (\<exists>a b. s = a @ LF # LF # b)"
    then have "split_blank [] None s = [s]" using split_blank_single[of s "[]" None] by simp
    with a show "parseMarkdown s = []" by (simp add: parseMarkdown_spaces)
  qed
  from t e a b c show ?thesis by (intro conjI)
qed

theorem parseMarkdown_blank_input_witness:
  "(\<exists>N. parseMarkdown_fuel N ''# a'' = Some ''<h1>a</h1>'')
   \<and> parseMarkdown [CHR '' '', LF, CHR 0x09, CR, LF] = []
   \<and> parseMarkdown [CHR '' '', LF, LF, LF, CHR 0x09, LF] = [LF]"
proof (intro conjI)
  from parseMarkdown_blank_input[of "''# a''", THEN conjunct1]
  obtain N where "\<forall>n\<ge>N. parseMarkdown_fuel n ''# a'' = Some (parseMarkdown ''# a'')" ..
  then have "parseMarkdown_fuel N ''# a'' = Some (parseMarkdown ''# a'')" by simp
  then show "\<exists>N. parseMarkdown_fuel N ''# a'' = Some ''<h1>a</h1>''"
    by (auto simp add: fuel_examples(1))
next
  have "\<forall>c\<in>set [CHR '' '', LF, CHR 0x09, CR, LF]. is_space c"
    by (simp add: is_space_def LF_def CR_def)
  with parseMarkdown_blank_input[of "[CHR '' '', LF, CHR 0x09, CR, LF]"] no_blank_line_example
  show "parseMarkdown [CHR '' '', LF, CHR 0x09, CR, LF] = []" by blast
next
  have "\<forall>c\<in>set [CHR '' '', LF, LF, LF, CHR 0x09, LF]. is_space c"
    by (simp add: is_space_def LF_def)
  with parseMarkdown_blank_input[of "[CHR '' '', LF, LF, LF, CHR 0x09, LF]"]
  have "parseMarkdown [CHR '' '', LF, LF, LF, CHR 0x09, LF] =
        replicate (length (split_blank [] None [CHR '' '', LF, LF, LF, CHR 0x09, LF]) - 1) LF"
    by blast
  then show "parseMarkdown [CHR '' '', LF, LF, LF, CHR 0x09, LF] = [LF]"
    by (simp add: split_blank_example)
qed

text \<open>Two line feeds are cut into two empty pieces, and the join puts a line feed between them.\<close>

theorem parseMarkdown_blank_lines_counterexample:
  "parseMarkdown [LF, LF] = [LF]"
  by code_simp

text \<open>
  C10. A line of the input that is itself a placeholder token, indented or not, is read back
  as the index it spells. When an item with that index was extracted, the line becomes an
  \<open><li>\<close> with the content of that item, which so appears twice; when there is none, the line
  is copied as it is and the list state is left alone.
\<close>

theorem placeholder_collision:
  "((\<forall>c\<in>set ws. is_space c) \<longrightarrow> placeholder_match (ws @ placeholder_token k) = Some k)
   \<and> ((\<forall>c\<in>set ws. is_space c) \<and> k < length tbl \<longrightarrow>
        restore_lists tbl False False [ws @ placeholder_token k] =
          (case ptype (tbl ! k) of
             UL \<Rightarrow> [''<ul>'', ''<li>'' @ content (tbl ! k) @ ''</li>'', ''</ul>'']
           | OL \<Rightarrow> [''<ol>'', ''<li>'' @ content (tbl ! k) @ ''</li>'', ''</ol>'']))
   \<and> ((\<forall>c\<in>set ws. is_space c) \<and> length tbl \<le> k \<longrightarrow>
        restore_lists tbl inUL inOL ((ws @ placeholder_token k) # rest) =
          (ws @ placeholder_token k) # restore_lists tbl inUL inOL rest)
   \<and> parseMarkdown (''- a'' @ [LF, LF] @ ''__LIST_ITEM_0__'')
       = ''<ul>'' @ [LF] @ ''<li>a</li>'' @ [LF] @ ''</ul>'' @ [LF]
         @ ''<ul>'' @ [LF] @ ''<li>a</li>'' @ [LF] @ ''</ul>''
   \<and> parseMarkdown (''- a'' @ [LF] @ ''  __LIST_ITEM_0__'')
       = ''<ul>'' @ [LF] @ ''<li>a</li>'' @ [LF] @ ''<li>a</li>'' @ [LF] @ ''</ul>''
   \<and> parseMarkdown (''- a'' @ [LF, LF] @ ''__LIST_ITEM_1__'')
       = ''<ul>'' @ [LF] @ ''<li>a</li>'' @ [LF] @ ''</ul>'' @ [LF] @ ''<p>__LIST_ITEM_1__</p>''
   \<and> parseMarkdown ''__LIST_ITEM_0__'' = ''<p>__LIST_ITEM_0__</p>''"
proof (intro conjI impI)
  assume "\<forall>c\<in>set ws. is_space c"
  then show "placeholder_match (ws @ placeholder_token k) = Some k"
    by (rule placeholder_match_token)
next
  assume "(\<forall>c\<in>set ws. is_space c) \<and> k < length tbl"
  then show "restore_lists tbl False False [ws @ placeholder_token k] =
          (case ptype (tbl ! k) of
             UL \<Rightarrow> [''<ul>'', ''<li>'' @ content (tbl ! k) @ ''</li>'', ''</ul>'']
           | OL \<Rightarrow> [''<ol>'', ''<li>'' @ content (tbl ! k) @ ''</li>'', ''</ol>''])"
    by (simp add: restore_item restore_lists.simps(1) close_lists_def split: list_type.splits)
next
  assume "(\<forall>c\<in>set ws. is_space c) \<and> length tbl \<le> k"
  then show "restore_lists tbl inUL inOL ((ws @ placeholder_token k) # rest) =
          (ws @ placeholder_token k) # restore_lists tbl inUL inOL rest"
    by (simp add: restore_stale)
next
  show "parseMarkdown (''- a'' @ [LF, LF] @ ''__LIST_ITEM_0__'')
       = ''<ul>'' @ [LF] @ ''<li>a</li>'' @ [LF] @ ''</ul>'' @ [LF]
         @ ''<ul>'' @ [LF] @ ''<li>a</li>'' @ [LF] @ ''</ul>''"
    by code_simp
  show "parseMarkdown (''- a'' @ [LF] @ ''  __LIST_ITEM_0__'')
       = ''<ul>'' @ [LF] @ ''<li>a</li>'' @ [LF] @ ''<li>a</li>'' @ [LF] @ ''</ul>''"
    by code_simp
  show "parseMarkdown (''- a'' @ [LF, LF] @ ''__LIST_ITEM_1__'')
       = ''<ul>'' @ [LF] @ ''<li>a</li>'' @ [LF] @ ''</ul>'' @ [LF] @ ''<p>__LIST_ITEM_1__</p>''"
    by code_simp
  show "parseMarkdown ''__LIST_ITEM_0__'' = ''<p>__LIST_ITEM_0__</p>''"
    by code_simp
qed

theorem placeholder_collision_witness:
  "restore_lists [\<lparr>ptype = OL, content = ''x'', indent = [], number = Some ''1''\<rparr>] False False
     [''  __LIST_ITEM_0__''] = [''<ol>'', ''<li>x</li>'', ''</ol>'']
   \<and> restore_lists [\<lparr>ptype = OL, content = ''x'', indent = [], number = Some ''1''\<rparr>] False False
     [''__LIST_ITEM_2__''] = [''__LIST_ITEM_2__'']"
  using placeholder_collision[where ws = "''  ''" and k = 0
      and tbl = "[\<lparr>ptype = OL, content = ''x'', indent = [], number = Some ''1''\<rparr>]"]
    placeholder_collision[where ws = "[]" and k = 2 and rest = "[]" and inUL = False and inOL = False
      and tbl = "[\<lparr>ptype = OL, content = ''x'', indent = [], number = Some ''1''\<rparr>]"]
  by (simp add: token_examples is_space_def restore_lists.simps(1) close_lists_def)

end
